theory Spec2Isabelle
  imports Main
begin

section \<open>JavaScript values\<close>

text \<open>
  The document edited by the application is the value that \<^verbatim>\<open>JSON.parse\<close> or
  \<^verbatim>\<open>yaml.load\<close> returned: a tree of mappings, sequences and scalars. An object is
  held as the list of its own properties in enumeration order, keys unique. Numbers are
  integers here; no property below depends on a fractional value. A hole of a sparse
  array reads as \<^verbatim>\<open>undefined\<close> and is held as \<open>JUndef\<close>.

  Limits of the model: values are trees (two places of a document never share one
  object, as after \<^verbatim>\<open>JSON.parse\<close> or an alias-free YAML text); an array has its
  elements and \<^verbatim>\<open>length\<close> and no other own property; a string is a list of
  characters, one per code unit. The members that a value inherits from the built-in
  prototypes (\<^verbatim>\<open>constructor\<close>, \<^verbatim>\<open>toString\<close>, ...) are no part of a document; reading
  them is modelled below, by the built-ins of the runtime.
\<close>

datatype jv =
    JUndef
  | JNull
  | JBool bool
  | JNum int
  | JStr string
  | JArr "jv list"
  | JObj "(string \<times> jv) list"

text \<open>A handler throws (\<open>TypeError\<close>), or takes a step that these values cannot follow
  (\<open>OutsideModel\<close>: it writes a named property or the length of an array, or makes an
  array contain itself), or it returns.\<close>

datatype failure = TypeError | OutsideModel

text \<open>\<^verbatim>\<open>!v\<close> is false exactly on the truthy values.\<close>

fun truthy :: "jv \<Rightarrow> bool" where
  "truthy JUndef = False"
| "truthy JNull = False"
| "truthy (JBool b) = b"
| "truthy (JNum n) = (n \<noteq> 0)"
| "truthy (JStr s) = (s \<noteq> [])"
| "truthy (JArr xs) = True"
| "truthy (JObj kvs) = True"

text \<open>\<^verbatim>\<open>v == null\<close>: null or undefined.\<close>

fun nullish :: "jv \<Rightarrow> bool" where
  "nullish JUndef = True"
| "nullish JNull = True"
| "nullish v = False"

text \<open>\<^verbatim>\<open>Array.isArray(v)\<close>.\<close>

fun isArray :: "jv \<Rightarrow> bool" where
  "isArray (JArr xs) = True"
| "isArray v = False"

text \<open>\<^verbatim>\<open>typeof v === 'object'\<close>: true of null, arrays and objects.\<close>

fun typeof_object :: "jv \<Rightarrow> bool" where
  "typeof_object JNull = True"
| "typeof_object (JArr xs) = True"
| "typeof_object (JObj kvs) = True"
| "typeof_object v = False"

text \<open>lodash \<^verbatim>\<open>isObject\<close>: a value that can hold properties.\<close>

fun isObject :: "jv \<Rightarrow> bool" where
  "isObject (JArr xs) = True"
| "isObject (JObj kvs) = True"
| "isObject v = False"

section \<open>Property keys\<close>

text \<open>A step of a \<^verbatim>\<open>Path = (string | number)[]\<close>. A numeric step is an integer (the
  callers pass array indices).\<close>

datatype step = Key string | Idx int

definition digit_char :: "nat \<Rightarrow> char" where
  "digit_char d = char_of (48 + d)"

definition is_digit :: "char \<Rightarrow> bool" where
  "is_digit c = (48 \<le> (of_char c :: nat) \<and> (of_char c :: nat) \<le> 57)"

definition digit_val :: "char \<Rightarrow> nat" where
  "digit_val c = of_char c - 48"

text \<open>The decimal numeral of a natural number, as \<^verbatim>\<open>String(n)\<close> writes it.\<close>

function dec_nat :: "nat \<Rightarrow> string" where
  "dec_nat n = (if n < 10 then [digit_char n] else dec_nat (n div 10) @ [digit_char (n mod 10)])"
  by pat_completeness auto
termination
  by (relation "measure (\<lambda>n. n)") auto

declare dec_nat.simps [simp del]

text \<open>lodash \<^verbatim>\<open>toKey\<close>: a string step is the key itself, a number its numeral.\<close>

fun toKey :: "step \<Rightarrow> string" where
  "toKey (Key s) = s"
| "toKey (Idx n) = (if n < 0 then CHR ''-'' # dec_nat (nat (- n)) else dec_nat (nat n))"

text \<open>lodash's \<^verbatim>\<open>reIsUint = /^(?:0|[1-9]\d*)$/\<close>: a canonical decimal numeral.\<close>

definition reIsUint :: "string \<Rightarrow> bool" where
  "reIsUint s = (s = ''0'' \<or> (s \<noteq> [] \<and> list_all is_digit s \<and> hd s \<noteq> CHR ''0''))"

definition uint_val :: "string \<Rightarrow> nat" where
  "uint_val s = foldl (\<lambda>a c. 10 * a + digit_val c) 0 s"

definition parse_uint :: "string \<Rightarrow> nat option" where
  "parse_uint s = (if reIsUint s then Some (uint_val s) else None)"

text \<open>An array index in the sense of the language: a canonical numeral below
  \<open>2\<^sup>3\<^sup>2 - 1\<close>. Such keys of an object are enumerated first, in ascending order.\<close>

definition array_index :: "string \<Rightarrow> nat option" where
  "array_index s =
     (case parse_uint s of
        None \<Rightarrow> None
      | Some i \<Rightarrow> if i < 4294967295 then Some i else None)"

text \<open>lodash \<^verbatim>\<open>isIndex(value)\<close> with the default bound \<^verbatim>\<open>MAX_SAFE_INTEGER\<close>.\<close>

fun isIndex :: "step \<Rightarrow> bool" where
  "isIndex (Idx n) = (0 \<le> n \<and> n < 9007199254740991)"
| "isIndex (Key s) = (case parse_uint s of None \<Rightarrow> False | Some i \<Rightarrow> i < 9007199254740991)"

section \<open>Reading and writing one property\<close>

text \<open>The own property \<open>key\<close> of a value that is not null or undefined. An array never
  has \<open>2\<^sup>3\<^sup>2 - 1\<close> elements or more, so a canonical numeral below its length is one
  of its indices. The names that the code reads by a literal (\<^verbatim>\<open>$ref\<close>, \<^verbatim>\<open>type\<close>,
  \<^verbatim>\<open>properties\<close>, \<^verbatim>\<open>items\<close>, \<^verbatim>\<open>required\<close>) are members of no built-in prototype, so
  \<^verbatim>\<open>schema.required\<close> and the like are own properties or undefined.\<close>

fun get_prop :: "jv \<Rightarrow> string \<Rightarrow> jv" where
  "get_prop (JObj kvs) k = (case map_of kvs k of None \<Rightarrow> JUndef | Some v \<Rightarrow> v)"
| "get_prop (JArr xs) k =
     (case parse_uint k of
        Some i \<Rightarrow> if i < length xs then xs ! i else JUndef
      | None \<Rightarrow> if k = ''length'' then JNum (int (length xs)) else JUndef)"
| "get_prop (JStr s) k =
     (case parse_uint k of
        Some i \<Rightarrow> if i < length s then JStr [s ! i] else JUndef
      | None \<Rightarrow> if k = ''length'' then JNum (int (length s)) else JUndef)"
| "get_prop v k = JUndef"

text \<open>The value of the first entry with key \<open>k\<close> is replaced where it stands.\<close>

fun replace_val :: "string \<Rightarrow> jv \<Rightarrow> (string \<times> jv) list \<Rightarrow> (string \<times> jv) list" where
  "replace_val k v [] = []"
| "replace_val k v (e # es) = (if fst e = k then (k, v) # es else e # replace_val k v es)"

text \<open>A new array-index key goes before the first key that is no array index or a larger
  one.\<close>

fun insert_index :: "nat \<Rightarrow> string \<Rightarrow> jv \<Rightarrow> (string \<times> jv) list \<Rightarrow> (string \<times> jv) list" where
  "insert_index i k v [] = [(k, v)]"
| "insert_index i k v (e # es) =
     (case array_index (fst e) of
        None \<Rightarrow> (k, v) # e # es
      | Some j \<Rightarrow> if i < j then (k, v) # e # es else e # insert_index i k v es)"

text \<open>\<^verbatim>\<open>obj[key] = value\<close> on an object: an own key keeps its place, a new key is
  added in enumeration order.\<close>

definition put_entry :: "(string \<times> jv) list \<Rightarrow> string \<Rightarrow> jv \<Rightarrow> (string \<times> jv) list" where
  "put_entry kvs k v =
     (if map_of kvs k \<noteq> None then replace_val k v kvs
      else case array_index k of
             None \<Rightarrow> kvs @ [(k, v)]
           | Some i \<Rightarrow> insert_index i k v kvs)"

text \<open>\<^verbatim>\<open>delete obj[key]\<close> on an object.\<close>

definition delete_entry :: "(string \<times> jv) list \<Rightarrow> string \<Rightarrow> (string \<times> jv) list" where
  "delete_entry kvs k = filter (\<lambda>e. fst e \<noteq> k) kvs"

text \<open>\<^verbatim>\<open>nested[key] = value\<close> on an object or an array. Writing an array beyond its end
  leaves holes; a key of an array that is no array index is its length or a named
  property of the array.\<close>

fun put_prop :: "jv \<Rightarrow> string \<Rightarrow> jv \<Rightarrow> failure + jv" where
  "put_prop (JObj kvs) k v = Inr (JObj (put_entry kvs k v))"
| "put_prop (JArr xs) k v =
     (case array_index k of
        None \<Rightarrow> Inl OutsideModel
      | Some i \<Rightarrow>
          if i < length xs then Inr (JArr (xs[i := v]))
          else Inr (JArr (xs @ replicate (i - length xs) JUndef @ [v])))"
| "put_prop w k v = Inl TypeError"

section \<open>Members of the built-ins\<close>

text \<open>
  \<^verbatim>\<open>object[key]\<close> with a key that a caller supplies finds the own property or, when
  there is none, the member of that name on the prototype chain: every object has
  \<^verbatim>\<open>constructor\<close> and \<^verbatim>\<open>toString\<close>, every array \<^verbatim>\<open>push\<close>, and so on. Which members
  there are is a matter of the runtime and a parameter here: \<open>builtins r k\<close> is the
  member \<open>k\<close> that a receiver of the kind \<open>r\<close> has beyond its own data properties. The
  value of a member is a scalar, a built-in function or a built-in object, each known by
  a number, and never a node of a document; reading a member can throw (as
  \<^verbatim>\<open>caller\<close> of a built-in function does).
\<close>

datatype receiver =
    OfObject
  | OfArray
  | OfString
  | OfNumber
  | OfBoolean
  | OfNativeFunction nat
  | OfNativeObject nat

datatype member =
    NoMember
  | NullMember
  | BooleanMember bool
  | NumberMember int
  | StringMember string
  | FunctionMember nat
  | ObjectMember nat
  | ThrowingMember

type_synonym builtins = "receiver \<Rightarrow> string \<Rightarrow> member"

text \<open>What reading a property or a path gives: a value of the document or a scalar, a
  built-in function, a built-in object, or an exception.\<close>

datatype reading = Data jv | NativeFunction nat | NativeObject nat | Throws

fun of_member :: "member \<Rightarrow> reading" where
  "of_member NoMember = Data JUndef"
| "of_member NullMember = Data JNull"
| "of_member (BooleanMember b) = Data (JBool b)"
| "of_member (NumberMember n) = Data (JNum n)"
| "of_member (StringMember s) = Data (JStr s)"
| "of_member (FunctionMember n) = NativeFunction n"
| "of_member (ObjectMember n) = NativeObject n"
| "of_member ThrowingMember = Throws"

text \<open>\<^verbatim>\<open>object[key]\<close> on what was read so far, not null or undefined: the own property
  if there is one, the member of the built-ins otherwise.\<close>

fun lookup :: "builtins \<Rightarrow> reading \<Rightarrow> string \<Rightarrow> reading" where
  "lookup env (Data (JObj kvs)) k =
     (case map_of kvs k of Some v \<Rightarrow> Data v | None \<Rightarrow> of_member (env OfObject k))"
| "lookup env (Data (JArr xs)) k =
     (case parse_uint k of
        Some i \<Rightarrow> if i < length xs then Data (xs ! i) else of_member (env OfArray k)
      | None \<Rightarrow> if k = ''length'' then Data (JNum (int (length xs)))
                else of_member (env OfArray k))"
| "lookup env (Data (JStr s)) k =
     (case parse_uint k of
        Some i \<Rightarrow> if i < length s then Data (JStr [s ! i]) else of_member (env OfString k)
      | None \<Rightarrow> if k = ''length'' then Data (JNum (int (length s)))
                else of_member (env OfString k))"
| "lookup env (Data (JNum n)) k = of_member (env OfNumber k)"
| "lookup env (Data (JBool b)) k = of_member (env OfBoolean k)"
| "lookup env (Data v) k = Data JUndef"
| "lookup env (NativeFunction n) k = of_member (env (OfNativeFunction n) k)"
| "lookup env (NativeObject n) k = of_member (env (OfNativeObject n) k)"
| "lookup env Throws k = Throws"

section \<open>lodash \<^verbatim>\<open>get\<close> and \<^verbatim>\<open>set\<close>\<close>

text \<open>
  \<^verbatim>\<open>
  function baseGet(object, path) {
    path = castPath(path, object);
    var index = 0, length = path.length;
    while (object != null && index < length) {
      object = object[toKey(path[index++])];
    }
    return (index && index == length) ? object : undefined;
  }
  function get(object, path, defaultValue) {
    var result = object == null ? undefined : baseGet(object, path);
    return result === undefined ? defaultValue : result;
  }
  \<close>
  The path is always an array here, so \<^verbatim>\<open>castPath\<close> returns it. The loop leaves early
  on a null or undefined value, and then \<open>index\<close> is not \<open>length\<close>; on the empty path
  \<open>index\<close> is \<open>0\<close>. Both give \<^verbatim>\<open>undefined\<close>.
\<close>

fun walk :: "builtins \<Rightarrow> reading \<Rightarrow> step list \<Rightarrow> reading" where
  "walk env obj [] = obj"
| "walk env obj (s # ss) =
     (if obj = Throws then Throws
      else if obj = Data JUndef \<or> obj = Data JNull then Data JUndef
      else walk env (lookup env obj (toKey s)) ss)"

definition baseGet :: "builtins \<Rightarrow> jv \<Rightarrow> step list \<Rightarrow> reading" where
  "baseGet env object path = (if path = [] then Data JUndef else walk env (Data object) path)"

definition lodash_get :: "builtins \<Rightarrow> jv \<Rightarrow> step list \<Rightarrow> reading \<Rightarrow> reading" where
  "lodash_get env object path defaultValue =
     (let result = (if nullish object then Data JUndef else baseGet env object path)
      in if result = Data JUndef then defaultValue else result)"

text \<open>
  \<^verbatim>\<open>
  function baseSet(object, path, value, customizer) {
    if (!isObject(object)) { return object; }
    path = castPath(path, object);
    var index = -1, length = path.length, lastIndex = length - 1, nested = object;
    while (nested != null && ++index < length) {
      var key = toKey(path[index]), newValue = value;
      if (key === '__proto__' || key === 'constructor' || key === 'prototype') {
        return object;
      }
      if (index != lastIndex) {
        var objValue = nested[key];
        newValue = customizer ? customizer(objValue, key, nested) : undefined;
        if (newValue === undefined) {
          newValue = isObject(objValue) ? objValue : (isIndex(path[index + 1]) ? [] : {});
        }
      }
      assignValue(nested, key, newValue);
      nested = nested[key];
    }
    return object;
  }
  function set(object, path, value) {
    return object == null ? object : baseSet(object, path, value);
  }
  \<close>
  The loop writes \<open>newValue\<close> under \<open>key\<close> and goes on inside it; the model returns
  the container after the writes below it. A write that stops at a refused key keeps
  the containers made so far. A built-in function or object under \<open>key\<close> passes
  \<^verbatim>\<open>isObject\<close>: the loop makes it an own property and goes on inside the built-in.
\<close>

fun baseSet_loop :: "builtins \<Rightarrow> jv \<Rightarrow> step list \<Rightarrow> jv \<Rightarrow> failure + jv" where
  "baseSet_loop env nested [] val = Inr nested"
| "baseSet_loop env nested (s # rest) val =
     (let key = toKey s in
      if key = ''__proto__'' \<or> key = ''constructor'' \<or> key = ''prototype'' then Inr nested
      else if rest = [] then put_prop nested key val
      else
        case lookup env (Data nested) key of
          Throws \<Rightarrow> Inl TypeError
        | NativeFunction n \<Rightarrow> Inl OutsideModel
        | NativeObject n \<Rightarrow> Inl OutsideModel
        | Data objValue \<Rightarrow>
            let newValue = (if isObject objValue then objValue
                            else if isIndex (hd rest) then JArr [] else JObj [])
            in (case baseSet_loop env newValue rest val of
                  Inl e \<Rightarrow> Inl e
                | Inr child \<Rightarrow> put_prop nested key child))"

definition lodash_set :: "builtins \<Rightarrow> jv \<Rightarrow> step list \<Rightarrow> jv \<Rightarrow> failure + jv" where
  "lodash_set env object path val =
     (if nullish object then Inr object
      else if \<not> isObject object then Inr object
      else baseSet_loop env object path val)"

text \<open>\<^verbatim>\<open>cloneDeep\<close> copies a tree of own properties to an equal tree.\<close>

definition cloneDeep :: "jv \<Rightarrow> jv" where
  "cloneDeep v = v"

text \<open>A handler keeps the reference that \<^verbatim>\<open>get(newSpec, path)\<close> returned and mutates
  the object behind it. When that is an array or an object of the document, \<^verbatim>\<open>get\<close>
  read own properties only, and in a tree the mutation is the replacement of the node at
  the end of the path, along those properties.\<close>

fun write_at :: "jv \<Rightarrow> step list \<Rightarrow> jv \<Rightarrow> jv" where
  "write_at obj [] new = new"
| "write_at (JObj kvs) (s # ss) new =
     JObj (replace_val (toKey s) (write_at (get_prop (JObj kvs) (toKey s)) ss new) kvs)"
| "write_at (JArr xs) (s # ss) new =
     (case parse_uint (toKey s) of
        Some i \<Rightarrow> if i < length xs then JArr (xs[i := write_at (xs ! i) ss new]) else JArr xs
      | None \<Rightarrow> JArr xs)"
| "write_at v (s # ss) new = v"

section \<open>The mutation handlers of \<^verbatim>\<open>App.tsx\<close>\<close>

text \<open>Each handler is the updater it passes to \<^verbatim>\<open>setParsedSpec\<close>: from the current
  snapshot to the next one.\<close>

text \<open>\<^verbatim>\<open>Object.keys(item)\<close> and \<^verbatim>\<open>Object.values(item)\<close>, paired: they throw on null
  and undefined, list the indices of an array or a string, and are empty on a number or
  a boolean.\<close>

fun object_entries :: "jv \<Rightarrow> failure + (string \<times> jv) list" where
  "object_entries JUndef = Inl TypeError"
| "object_entries JNull = Inl TypeError"
| "object_entries (JObj kvs) = Inr kvs"
| "object_entries (JArr xs) = Inr (zip (map dec_nat [0..<length xs]) xs)"
| "object_entries (JStr s) = Inr (zip (map dec_nat [0..<length s]) (map (\<lambda>c. JStr [c]) s))"
| "object_entries v = Inr []"

text \<open>
  \<^verbatim>\<open>
  const handleAddItem = useCallback((path: Path, item: any) => {
      setParsedSpec(currentSpec => {
          if (!currentSpec) return null;
          const newSpec = cloneDeep(currentSpec);
          let collection = get(newSpec, path);
          if (collection === undefined) {
               set(newSpec, path, Array.isArray(item) ? item : [item]);
               collection = get(newSpec, path);
          }
          if (Array.isArray(collection)) {
              collection.push(item);
          } else if (typeof collection === 'object' && collection !== null) {
              const key = Object.keys(item)[0];
              const value = Object.values(item)[0];
              collection[key] = value;
          }
          return newSpec;
      });
  }, []);
  \<close>
  When the location was absent and \<open>item\<close> is an array, \<open>collection\<close> is \<open>item\<close>
  itself and the push makes it contain itself. When \<^verbatim>\<open>get\<close> finds a built-in object,
  the handler writes into it (or throws before it does).
\<close>

definition handleAddItem :: "builtins \<Rightarrow> jv \<Rightarrow> step list \<Rightarrow> jv \<Rightarrow> failure + jv" where
  "handleAddItem env currentSpec path item =
     (if \<not> truthy currentSpec then Inr JNull
      else
        let newSpec = cloneDeep currentSpec;
            collection = lodash_get env newSpec path (Data JUndef)
        in case (if collection = Data JUndef
                 then lodash_set env newSpec path (if isArray item then item else JArr [item])
                 else Inr newSpec) of
             Inl e \<Rightarrow> Inl e
           | Inr newSpec1 \<Rightarrow>
               let collection1 = (if collection = Data JUndef
                                  then lodash_get env newSpec1 path (Data JUndef)
                                  else collection)
               in (case collection1 of
                     Throws \<Rightarrow> Inl TypeError
                   | NativeObject n \<Rightarrow> Inl OutsideModel
                   | NativeFunction n \<Rightarrow> Inr newSpec1
                   | Data (JArr xs) \<Rightarrow>
                       if collection = Data JUndef \<and> isArray item then Inl OutsideModel
                       else Inr (write_at newSpec1 path (JArr (xs @ [item])))
                   | Data (JObj kvs) \<Rightarrow>
                       (case object_entries item of
                          Inl e \<Rightarrow> Inl e
                        | Inr es \<Rightarrow>
                            let key = (case es of [] \<Rightarrow> ''undefined'' | e # _ \<Rightarrow> fst e);
                                val = (case es of [] \<Rightarrow> JUndef | e # _ \<Rightarrow> snd e)
                            in Inr (write_at newSpec1 path (JObj (put_entry kvs key val))))
                   | Data v \<Rightarrow> Inr newSpec1))"

text \<open>\<^verbatim>\<open>Number(itemKey)\<close> as \<^verbatim>\<open>splice\<close> reads it (\<^verbatim>\<open>ToIntegerOrInfinity\<close>). A numeric
  step and a canonical numeral are their value; what the conversion makes of any other
  string is the parameter \<open>toInteger\<close>.\<close>

datatype integer_or_infinity = NegInfinity | Finite int | PosInfinity

definition splice_start :: "(string \<Rightarrow> integer_or_infinity) \<Rightarrow> step \<Rightarrow> integer_or_infinity" where
  "splice_start toInteger itemKey =
     (case itemKey of
        Idx n \<Rightarrow> Finite n
      | Key s \<Rightarrow> (case parse_uint s of Some n \<Rightarrow> Finite (int n) | None \<Rightarrow> toInteger s))"

text \<open>\<^verbatim>\<open>xs.splice(start, 1)\<close>: a negative start counts from the end, the start is
  clamped to the array, and one element is removed if there is one at the start.\<close>

definition splice1 :: "integer_or_infinity \<Rightarrow> 'a list \<Rightarrow> 'a list" where
  "splice1 start xs =
     (let len = int (length xs);
          actualStart = (case start of
                           NegInfinity \<Rightarrow> 0
                         | Finite r \<Rightarrow> if r < 0 then max (len + r) 0 else min r len
                         | PosInfinity \<Rightarrow> len)
      in take (nat actualStart) xs @ drop (nat actualStart + 1) xs)"

text \<open>
  \<^verbatim>\<open>
  const handleRemoveItemByPath = useCallback((path: Path) => {
      setParsedSpec(currentSpec => {
          if (!currentSpec) return null;
          const newSpec = cloneDeep(currentSpec);
          const parentPath = path.slice(0, -1);
          const itemKey = path.slice(-1)[0];
          const parent = get(newSpec, parentPath);
          if (Array.isArray(parent)) {
               parent.splice(Number(itemKey), 1);
          } else if (typeof parent === 'object' && parent !== null) {
              delete parent[itemKey];
          }
          return newSpec;
      });
  }, []);
  \<close>
  \<open>parent\<close> is an array or an object only when \<open>parentPath\<close> has a step, and then
  \<open>itemKey\<close> is the last step of \<open>path\<close>. On a built-in object the handler splices
  or deletes in the built-in.
\<close>

definition handleRemoveItemByPath ::
  "builtins \<Rightarrow> (string \<Rightarrow> integer_or_infinity) \<Rightarrow> jv \<Rightarrow> step list \<Rightarrow> failure + jv" where
  "handleRemoveItemByPath env toInteger currentSpec path =
     (if \<not> truthy currentSpec then Inr JNull
      else
        let newSpec = cloneDeep currentSpec;
            parentPath = butlast path;
            parent = lodash_get env newSpec parentPath (Data JUndef)
        in case parent of
             Throws \<Rightarrow> Inl TypeError
           | NativeObject n \<Rightarrow> Inl OutsideModel
           | NativeFunction n \<Rightarrow> Inr newSpec
           | Data (JArr xs) \<Rightarrow>
               Inr (write_at newSpec parentPath
                      (JArr (splice1 (splice_start toInteger (last path)) xs)))
           | Data (JObj kvs) \<Rightarrow>
               Inr (write_at newSpec parentPath (JObj (delete_entry kvs (toKey (last path)))))
           | Data v \<Rightarrow> Inr newSpec)"

text \<open>\<^verbatim>\<open>array.indexOf(x)\<close>: the first index whose element is strictly equal to \<open>x\<close>, or
  \<open>-1\<close>. \<^verbatim>\<open>string.indexOf(k)\<close>: the first position where \<open>k\<close> stands, or \<open>-1\<close>.\<close>

fun index_from :: "'a list \<Rightarrow> 'a \<Rightarrow> nat \<Rightarrow> int" where
  "index_from [] x i = - 1"
| "index_from (y # ys) x i = (if y = x then int i else index_from ys x (Suc i))"

fun str_index_from :: "string \<Rightarrow> string \<Rightarrow> nat \<Rightarrow> int" where
  "str_index_from [] k i = (if k = [] then int i else - 1)"
| "str_index_from (c # s) k i =
     (if take (length k) (c # s) = k then int i else str_index_from s k (Suc i))"

text \<open>The body of the handler on a schema node that is an object: \<open>required\<close> is made
  an empty array when it is missing or falsy, the key is pushed or spliced out, and an
  array left empty is deleted. A truthy \<open>required\<close> that is no array has no \<^verbatim>\<open>push\<close>
  or \<^verbatim>\<open>splice\<close>, and no \<^verbatim>\<open>indexOf\<close> unless it is a string.\<close>

definition toggle_required ::
  "(string \<times> jv) list \<Rightarrow> string \<Rightarrow> bool \<Rightarrow> failure + (string \<times> jv) list" where
  "toggle_required kvs propertyKey makeRequired =
     (let kvs1 = (if \<not> truthy (get_prop (JObj kvs) ''required'')
                  then put_entry kvs ''required'' (JArr []) else kvs)
      in case get_prop (JObj kvs1) ''required'' of
           JArr r \<Rightarrow>
             let keyIndex = index_from r (JStr propertyKey) 0;
                 r1 = (if makeRequired \<and> keyIndex = - 1 then r @ [JStr propertyKey]
                       else if \<not> makeRequired \<and> keyIndex > - 1
                       then take (nat keyIndex) r @ drop (nat keyIndex + 1) r
                       else r)
             in if r1 = [] then Inr (delete_entry kvs1 ''required'')
                else Inr (replace_val ''required'' (JArr r1) kvs1)
         | JStr s \<Rightarrow>
             let keyIndex = str_index_from s propertyKey 0
             in if makeRequired \<and> keyIndex = - 1 then Inl TypeError
                else if \<not> makeRequired \<and> keyIndex > - 1 then Inl TypeError
                else if s = [] then Inr (delete_entry kvs1 ''required'')
                else Inr kvs1
         | _ \<Rightarrow> Inl TypeError)"

text \<open>
  \<^verbatim>\<open>
  const handleToggleRequired = useCallback(
    (schemaPath: Path, propertyKey: string, makeRequired: boolean) => {
      setParsedSpec(currentSpec => {
          if (!currentSpec) return null;
          const newSpec = cloneDeep(currentSpec);
          const schema = get(newSpec, schemaPath);
          if (schema && typeof schema === 'object') {
              if (!schema.required) {
                  schema.required = [];
              }
              const requiredArray = schema.required as string[];
              const keyIndex = requiredArray.indexOf(propertyKey);
              if (makeRequired && keyIndex === -1) {
                  requiredArray.push(propertyKey);
              } else if (!makeRequired && keyIndex > -1) {
                  requiredArray.splice(keyIndex, 1);
              }
              if (requiredArray.length === 0) {
                  delete schema.required;
              }
          }
          return newSpec;
      });
  }, []);
  \<close>
  On a schema node that is an array or a built-in object, \<open>required\<close> is a named
  property of it: it is made and deleted again when the flag is false, and stays when the
  flag is true.
\<close>

definition handleToggleRequired ::
  "builtins \<Rightarrow> jv \<Rightarrow> step list \<Rightarrow> string \<Rightarrow> bool \<Rightarrow> failure + jv" where
  "handleToggleRequired env currentSpec schemaPath propertyKey makeRequired =
     (if \<not> truthy currentSpec then Inr JNull
      else
        let newSpec = cloneDeep currentSpec
        in case lodash_get env newSpec schemaPath (Data JUndef) of
             Throws \<Rightarrow> Inl TypeError
           | NativeFunction n \<Rightarrow> Inr newSpec
           | NativeObject n \<Rightarrow> if makeRequired then Inl OutsideModel else Inr newSpec
           | Data schema \<Rightarrow>
               if truthy schema \<and> typeof_object schema then
                 (case schema of
                    JObj kvs \<Rightarrow>
                      (case toggle_required kvs propertyKey makeRequired of
                         Inl e \<Rightarrow> Inl e
                       | Inr kvs' \<Rightarrow> Inr (write_at newSpec schemaPath (JObj kvs')))
                  | _ \<Rightarrow> if makeRequired then Inl OutsideModel else Inr newSpec)
               else Inr newSpec)"

text \<open>The Required-set of the schema node at a path: the sequence that \<open>get\<close> finds under
  its key \<^verbatim>\<open>required\<close>, empty when there is none.\<close>

definition required_set :: "builtins \<Rightarrow> jv \<Rightarrow> step list \<Rightarrow> jv list" where
  "required_set env d schemaPath =
     (case lodash_get env d (schemaPath @ [Key ''required'']) (Data JUndef) of
        Data (JArr r) \<Rightarrow> r
      | _ \<Rightarrow> [])"

section \<open>Locations of a document\<close>

text \<open>
  The specification's notion of a location, written from its words and not from the
  code: a path is an ordered sequence of steps, each a literal mapping key or a decimal
  sequence index, and identifies one location in a document from its root. \<open>spec_node_at\<close>
  is the node at that location, if there is one: the empty path is the root, a step into
  a mapping is at the entry with that key, a step into a sequence is at the element with
  that index (a canonical decimal numeral below the length), and nothing is inside a
  scalar. The steps are strings, as those of a reference are; a step of a handler's path
  is taken by its \<open>toKey\<close>.
\<close>

fun spec_node_at :: "jv \<Rightarrow> string list \<Rightarrow> jv option" where
  "spec_node_at d [] = Some d"
| "spec_node_at (JObj kvs) (s # ss) =
     (case map_of kvs s of None \<Rightarrow> None | Some v \<Rightarrow> spec_node_at v ss)"
| "spec_node_at (JArr xs) (s # ss) =
     (case parse_uint s of
        Some i \<Rightarrow> if i < length xs then spec_node_at (xs ! i) ss else None
      | None \<Rightarrow> None)"
| "spec_node_at d (s # ss) = None"

section \<open>The reference resolver\<close>

text \<open>\<^verbatim>\<open>s.split('/')\<close>: the pieces between the separators; the empty string has one
  empty piece.\<close>

fun split_on :: "char \<Rightarrow> string \<Rightarrow> string list" where
  "split_on c [] = [[]]"
| "split_on c (x # xs) =
     (if x = c then [] # split_on c xs
      else case split_on c xs of
             [] \<Rightarrow> [[x]]
           | w # ws \<Rightarrow> (x # w) # ws)"

definition startsWith :: "string \<Rightarrow> string \<Rightarrow> bool" where
  "startsWith s p = (take (length p) s = p)"

text \<open>
  \<^verbatim>\<open>
  export const resolveRef = (spec: OpenAPIObject, ref: string): any | null => {
      if (!ref.startsWith('#/')) {
          console.warn(...);
          return null;
      }
      const path = ref.substring(2).split('/');
      return get(spec, path, null);
  };
  \<close>
  A call gives what it returns and the document as it is after the call; the function
  and \<^verbatim>\<open>get\<close> below it read and write nothing.
\<close>

definition resolveRef_call :: "builtins \<Rightarrow> jv \<Rightarrow> string \<Rightarrow> reading \<times> jv" where
  "resolveRef_call env spec ref =
     (if \<not> startsWith ref ''#/'' then (Data JNull, spec)
      else let path = map Key (split_on CHR ''/'' (drop 2 ref))
           in (lodash_get env spec path (Data JNull), spec))"

definition resolveRef :: "builtins \<Rightarrow> jv \<Rightarrow> string \<Rightarrow> reading" where
  "resolveRef env spec ref = fst (resolveRef_call env spec ref)"


section \<open>\<^verbatim>\<open>SchemaView\<close>: rendering a schema through its references\<close>

text \<open>What a call of the component renders, as far as references go: the message of a
  circular or an invalid reference, the frame of a resolved reference around the view
  of its target, the views of the properties of an object schema (none for a property
  that \<^verbatim>\<open>renderParameter\<close> skips), the view of the item schema of an array schema, or
  a leaf. \<open>RenderError\<close> is a call that throws.\<close>

datatype view =
    CircularReference string
  | InvalidReference string
  | ResolvedReference string view
  | ObjectSchema "(string \<times> view option) list"
  | ArraySchema "view option"
  | OtherSchema
  | RenderError

text \<open>\<^verbatim>\<open>key in v\<close> on an object or an array, for a key that is a member of no built-in
  prototype (the code asks for \<^verbatim>\<open>$ref\<close> only).\<close>

fun has_key :: "jv \<Rightarrow> string \<Rightarrow> bool" where
  "has_key (JObj kvs) k = (map_of kvs k \<noteq> None)"
| "has_key (JArr xs) k =
     (case parse_uint k of Some i \<Rightarrow> i < length xs | None \<Rightarrow> k = ''length'')"
| "has_key v k = False"

text \<open>\<^verbatim>\<open>required.includes(key)\<close> is defined on an array and on a string; the
  destructuring default \<^verbatim>\<open>required = []\<close> stands in for \<^verbatim>\<open>undefined\<close> only.\<close>

fun has_includes :: "jv \<Rightarrow> bool" where
  "has_includes JUndef = True"
| "has_includes (JArr xs) = True"
| "has_includes (JStr s) = True"
| "has_includes v = False"

fun is_string :: "jv \<Rightarrow> bool" where
  "is_string (JStr s) = True"
| "is_string v = False"

text \<open>The reference strings of a value: the strings under a key \<^verbatim>\<open>$ref\<close> anywhere in
  it. They bound the references a rendering can follow.\<close>

fun refs_of :: "jv \<Rightarrow> string list" where
  "refs_of (JArr xs) = concat (map refs_of xs)"
| "refs_of (JObj kvs) =
     concat (map (\<lambda>e. (case snd e of
                          JStr r \<Rightarrow> if fst e = ''$ref'' then [r] else []
                        | _ \<Rightarrow> []) @ refs_of (snd e)) kvs)"
| "refs_of v = []"

text \<open>
  \<^verbatim>\<open>
  export const SchemaView: React.FC<SchemaViewProps> = (props) => {
      const { schema, path, spec, ..., isRoot = false, visitedRefs = [] } = props;
      if ('$ref' in schema) {
          if (visitedRefs.includes(schema.$ref)) {
              return <div ...>Circular Reference: {schema.$ref}</div>;
          }
          const resolvedSchema = resolveRef(spec, schema.$ref);
          if (!resolvedSchema) {
              return <div ...>Invalid Reference: {schema.$ref}</div>;
          }
          return (
              <div ...>
                  <SchemaView {...props} schema={resolvedSchema}
                      path={schemaPathFromRef(schema.$ref)}
                      visitedRefs={[...visitedRefs, schema.$ref]} isRoot={false} />
              </div>
          );
      }
      const { type = 'object', properties, items, required = [], ... } = schema;
      ...
      const renderParameter = (key, propSchema) => {
          if (!propSchema) return null;
          const isRequired = required.includes(key);
          ...
          <SchemaView {...props} schema={propSchema} path={propertyPath} />
      };
      switch (type) {
          case 'object':
              ... {properties && Object.entries(properties).map(
                     ([key, propSchema]) => renderParameter(key, propSchema))} ...
          case 'array':
              const itemSchema = items && '$ref' in items ? resolveRef(spec, items.$ref) : items;
              ... {items && ( ... <SchemaView {...props} schema={items}
                                     path={path.concat('items')} /> ... )}
          default:
              ...
      }
  };
  \<close>
  \<^verbatim>\<open>'$ref' in schema\<close> throws on a schema that is no object, and
  \<^verbatim>\<open>ref.startsWith\<close> on a reference that is no string. The children receive
  \<open>visitedRefs\<close> with the other props. A reference that resolves to a built-in
  function or object is rendered with that as its schema: a built-in has none of the
  members \<^verbatim>\<open>$ref\<close>, \<^verbatim>\<open>type\<close>, \<^verbatim>\<open>properties\<close>, \<^verbatim>\<open>items\<close> and \<^verbatim>\<open>required\<close>, so it is
  an object schema without properties.
\<close>

function SchemaView :: "builtins \<Rightarrow> jv \<Rightarrow> jv \<Rightarrow> string list \<Rightarrow> view" where
  "SchemaView env spec schema visitedRefs =
     (if \<not> isObject schema then RenderError
      else if has_key schema ''$ref'' then
        (case get_prop schema ''$ref'' of
           JStr ref \<Rightarrow>
             if ref \<in> set visitedRefs then CircularReference ref
             else
               (case resolveRef env spec ref of
                  Throws \<Rightarrow> RenderError
                | NativeFunction n \<Rightarrow> ResolvedReference ref (ObjectSchema [])
                | NativeObject n \<Rightarrow> ResolvedReference ref (ObjectSchema [])
                | Data resolvedSchema \<Rightarrow>
                    if \<not> truthy resolvedSchema then InvalidReference ref
                    else ResolvedReference ref
                           (SchemaView env spec resolvedSchema (visitedRefs @ [ref])))
         | _ \<Rightarrow> RenderError)
      else
        let type = (case get_prop schema ''type'' of JUndef \<Rightarrow> JStr ''object'' | t \<Rightarrow> t);
            properties = get_prop schema ''properties'';
            items = get_prop schema ''items'';
            required = get_prop schema ''required''
        in if type = JStr ''object'' then
             (if \<not> truthy properties then ObjectSchema []
              else case object_entries properties of
                     Inl e \<Rightarrow> RenderError
                   | Inr es \<Rightarrow>
                       if list_ex (\<lambda>e. truthy (snd e)) es \<and> \<not> has_includes required
                       then RenderError
                       else ObjectSchema
                              (map (\<lambda>e. (fst e,
                                      if truthy (snd e)
                                      then Some (SchemaView env spec (snd e) visitedRefs)
                                      else None)) es))
           else if type = JStr ''array'' then
             (if \<not> truthy items then ArraySchema None
              else if \<not> isObject items then RenderError
              else if has_key items ''$ref'' \<and> \<not> is_string (get_prop items ''$ref'')
              then RenderError
              else ArraySchema (Some (SchemaView env spec items visitedRefs)))
           else OtherSchema)"
  by pat_completeness auto

text \<open>The largest number of reference frames around each other in a view: how many
  references in a row the rendering followed.\<close>

fun frames :: "view \<Rightarrow> nat" where
  "frames (ResolvedReference r v) = Suc (frames v)"
| "frames (ObjectSchema es) =
     foldr (\<lambda>e m. max (case snd e of None \<Rightarrow> 0 | Some v \<Rightarrow> frames v) m) es 0"
| "frames (ArraySchema None) = 0"
| "frames (ArraySchema (Some v)) = frames v"
| "frames v = 0"

text \<open>A document whose schemas refer to each other in a circle, and a schema that refers
  to itself through a property.\<close>

definition self_ref_spec :: jv where
  "self_ref_spec =
     JObj [(''A'', JObj [(''$ref'', JStr ''#/B'')]),
           (''B'', JObj [(''$ref'', JStr ''#/A'')]),
           (''Node'', JObj [(''type'', JStr ''object''),
                            (''properties'', JObj [(''next'', JObj [(''$ref'', JStr ''#/Node'')])])])]"

section \<open>The sync controller of \<^verbatim>\<open>App.tsx\<close>\<close>

text \<open>The parsers and serializers are library code and parameters of the controller:
  \<open>JSON_parse\<close> is \<open>None\<close> where \<^verbatim>\<open>JSON.parse\<close> throws, \<open>yaml_load\<close> is \<open>Inl\<close> the
  message of the exception where \<^verbatim>\<open>yaml.load\<close> throws, and the serializers
  \<^verbatim>\<open>JSON.stringify(_, null, 2)\<close> and \<^verbatim>\<open>yaml.dump\<close> are \<open>None\<close> where they throw.\<close>

record library =
  JSON_parse :: "string \<Rightarrow> jv option"
  yaml_load :: "string \<Rightarrow> string + jv"
  JSON_stringify :: "jv \<Rightarrow> string option"
  yaml_dump :: "jv \<Rightarrow> string option"

datatype spec_format = Json | Yaml

text \<open>The state of the component: the five values of \<^verbatim>\<open>useState\<close> and \<^verbatim>\<open>useRef\<close>
  that the controller uses, and the call of the debounced \<open>parseSpec\<close> that waits for
  its 500 ms, if any.\<close>

record app_state =
  specString :: string
  parsedSpec :: jv
  parseError :: "string option"
  specFormat :: spec_format
  isUpdatingFromView :: bool
  pendingParse :: "string option"

text \<open>The inner \<^verbatim>\<open>catch\<close>:
  \<^verbatim>\<open>setParsedSpec(null); setParseError(yamlError.message || 'Invalid YAML or JSON format.')\<close>.\<close>

definition parse_failed :: "app_state \<Rightarrow> string \<Rightarrow> app_state" where
  "parse_failed st message =
     st\<lparr>parsedSpec := JNull,
        parseError := Some (if message \<noteq> [] then message
                            else ''Invalid YAML or JSON format.'')\<rparr>"

text \<open>
  \<^verbatim>\<open>
  const parseSpec = useCallback((currentSpec: string) => {
      if (isUpdatingFromView.current) {
          isUpdatingFromView.current = false;
          return;
      }
      try {
          const jsonParsed = JSON.parse(currentSpec);
          setParsedSpec(jsonParsed);
          setParseError(null);
          setSpecFormat('json');
      } catch (jsonError) {
          try {
              const yamlParsed = yaml.load(currentSpec);
              if (typeof yamlParsed !== 'object' || yamlParsed === null) {
                  throw new Error("Invalid YAML: content must be an object.");
              }
              setParsedSpec(yamlParsed as OpenAPIObject);
              setParseError(null);
              setSpecFormat('yaml');
          } catch (yamlError: any) {
              setParsedSpec(null);
              setParseError(yamlError.message || 'Invalid YAML or JSON format.');
          }
      }
  }, []);
  \<close>
\<close>

definition parseSpec :: "library \<Rightarrow> app_state \<Rightarrow> string \<Rightarrow> app_state" where
  "parseSpec lib st currentSpec =
     (if isUpdatingFromView st then st\<lparr>isUpdatingFromView := False\<rparr>
      else case JSON_parse lib currentSpec of
             Some jsonParsed \<Rightarrow>
               st\<lparr>parsedSpec := jsonParsed, parseError := None, specFormat := Json\<rparr>
           | None \<Rightarrow>
               (case yaml_load lib currentSpec of
                  Inl message \<Rightarrow> parse_failed st message
                | Inr yamlParsed \<Rightarrow>
                    if \<not> typeof_object yamlParsed \<or> yamlParsed = JNull
                    then parse_failed st ''Invalid YAML: content must be an object.''
                    else st\<lparr>parsedSpec := yamlParsed, parseError := None,
                            specFormat := Yaml\<rparr>))"

text \<open>\<^verbatim>\<open>setSpecString(s)\<close>: a state equal to the current one changes nothing; a new
  text is rendered, and the effect on \<open>[specString]\<close> calls the debounced \<open>parseSpec\<close>
  with it, which replaces a call that still waits.\<close>

definition setSpecString :: "app_state \<Rightarrow> string \<Rightarrow> app_state" where
  "setSpecString st s =
     (if s = specString st then st else st\<lparr>specString := s, pendingParse := Some s\<rparr>)"

text \<open>
  \<^verbatim>\<open>
  useEffect(() => {
      if (!parsedSpec) return;
      isUpdatingFromView.current = true;
      try {
          if (specFormat === 'yaml') {
              const newYamlString = yaml.dump(parsedSpec);
              setSpecString(newYamlString);
          } else {
              const newJsonString = JSON.stringify(parsedSpec, null, 2);
              setSpecString(newJsonString);
          }
      } catch (e) {
          console.error("Error serializing spec:", e);
      }
  }, [parsedSpec, specFormat]);
  \<close>
\<close>

definition serializeEffect :: "library \<Rightarrow> app_state \<Rightarrow> app_state" where
  "serializeEffect lib st =
     (if \<not> truthy (parsedSpec st) then st
      else
        let st1 = st\<lparr>isUpdatingFromView := True\<rparr>
        in case (if specFormat st = Yaml then yaml_dump lib (parsedSpec st)
                 else JSON_stringify lib (parsedSpec st)) of
             None \<Rightarrow> st1
           | Some s \<Rightarrow> setSpecString st1 s)"

text \<open>The effect runs after a render in which \<open>parsedSpec\<close> or \<open>specFormat\<close> is not
  the same value as before (\<^verbatim>\<open>Object.is\<close>): an object or array that was just made is
  never the same as the old one. The state updates of one callback are rendered
  together.\<close>

definition after_render :: "library \<Rightarrow> app_state \<Rightarrow> bool \<Rightarrow> app_state \<Rightarrow> app_state" where
  "after_render lib before made after =
     (if (made \<and> isObject (parsedSpec after)) \<or> parsedSpec after \<noteq> parsedSpec before
         \<or> specFormat after \<noteq> specFormat before
      then serializeEffect lib after
      else after)"

text \<open>What happens to the component: the user edits the text (\<^verbatim>\<open>onChange={setSpecString}\<close>),
  the debounce delay of the waiting call ends, or a form control calls a mutation
  handler, whose updater is given. An updater that throws ends the render with an
  error and no state follows; the model stays at the state before it.\<close>

datatype event = Edit string | Fire | Mutate "jv \<Rightarrow> failure + jv"

fun handle :: "library \<Rightarrow> app_state \<Rightarrow> event \<Rightarrow> app_state" where
  "handle lib st (Edit s) = setSpecString st s"
| "handle lib st Fire =
     (case pendingParse st of
        None \<Rightarrow> st
      | Some currentSpec \<Rightarrow>
          let st0 = st\<lparr>pendingParse := None\<rparr>;
              st1 = parseSpec lib st0 currentSpec
          in after_render lib st0 (\<not> isUpdatingFromView st0) st1)"
| "handle lib st (Mutate updater) =
     (case updater (parsedSpec st) of
        Inl e \<Rightarrow> st
      | Inr newSpec \<Rightarrow>
          after_render lib st True (st\<lparr>parsedSpec := newSpec\<rparr>))"

text \<open>The events of a run, in order.\<close>

fun run :: "library \<Rightarrow> app_state \<Rightarrow> event list \<Rightarrow> app_state" where
  "run lib st [] = st"
| "run lib st (e # es) = run lib (handle lib st e) es"

text \<open>The component when it is mounted on the text \<open>s\<close> (the application mounts on its
  sample text): the initial values of the hooks, and the first call of the debounced
  \<open>parseSpec\<close> waiting.\<close>

definition initial_state :: "string \<Rightarrow> app_state" where
  "initial_state s =
     \<lparr>specString = s, parsedSpec = JNull, parseError = None, specFormat = Yaml,
      isUpdatingFromView = False, pendingParse = Some s\<rparr>"

text \<open>The values of the four library functions at the texts and documents of the
  examples below.\<close>

definition sample_JSON_parse :: "string \<Rightarrow> jv option" where
  "sample_JSON_parse t =
     (if t = ''{}'' \<or> t = ''{ }'' then Some (JObj [])
      else if t = ''[]'' then Some (JArr [])
      else if t = ''[1]'' then Some (JArr [JNum 1])
      else if t = ''5'' then Some (JNum 5)
      else None)"

definition sample_yaml_load :: "string \<Rightarrow> string + jv" where
  "sample_yaml_load t =
     (if t = ''hello'' then Inr (JStr ''hello'')
      else if t = ''a: 1'' then Inr (JObj [(''a'', JNum 1)])
      else Inl ''unexpected end of the stream within a flow collection'')"

definition sample_JSON_stringify :: "jv \<Rightarrow> string option" where
  "sample_JSON_stringify v =
     (if v = JObj [] then Some ''{}''
      else if v = JArr [] then Some ''[]''
      else None)"

definition sample_yaml_dump :: "jv \<Rightarrow> string option" where
  "sample_yaml_dump v =
     (if v = JObj [] then Some (''{}'' @ [CHR 0x0A])
      else if v = JObj [(''a'', JNum 1)] then Some (''a: 1'' @ [CHR 0x0A])
      else None)"

definition sample_library :: library where
  "sample_library =
     \<lparr>JSON_parse = sample_JSON_parse, yaml_load = sample_yaml_load,
      JSON_stringify = sample_JSON_stringify, yaml_dump = sample_yaml_dump\<rparr>"

text \<open>The text \<^verbatim>\<open>{}\<close> and its document agree, and nothing is waiting.\<close>

definition idle_state :: app_state where
  "idle_state =
     \<lparr>specString = ''{}'', parsedSpec = JObj [], parseError = None, specFormat = Json,
      isUpdatingFromView = False, pendingParse = None\<rparr>"

text \<open>A document for the examples of the mutation handlers.\<close>

definition sample_doc :: jv where
  "sample_doc =
     JObj [(''servers'', JArr [JNum 1, JNum 2, JNum 3]),
           (''info'', JObj [(''title'', JStr ''t''), (''version'', JStr ''1'')])]"

text \<open>A schema whose Required-set names a property twice, and one whose Required-set
  has one member.\<close>

definition dup_doc :: jv where
  "dup_doc = JObj [(''Pet'', JObj [(''required'', JArr [JStr ''id'', JStr ''id''])])]"

definition pet_doc :: jv where
  "pet_doc =
     JObj [(''Pet'', JObj [(''type'', JStr ''object''), (''required'', JArr [JStr ''id''])])]"


text \<open>\<^verbatim>\<open>Number(s)\<close> as an integer for the keys of the examples that are no numerals:
  it is \<^verbatim>\<open>NaN\<close>, which \<^verbatim>\<open>splice\<close> takes as 0.\<close>

definition sample_toInteger :: "string \<Rightarrow> integer_or_infinity" where
  "sample_toInteger s = Finite 0"

text \<open>The members of the built-ins that the examples read: the \<^verbatim>\<open>constructor\<close> of an
  object is the function \<^verbatim>\<open>Object\<close> (built-in function 0), whose \<^verbatim>\<open>name\<close> is the
  string \<^verbatim>\<open>Object\<close>. The examples read no other member.\<close>

definition sample_builtins :: builtins where
  "sample_builtins r k =
     (if r = OfObject \<and> k = ''constructor'' then FunctionMember 0
      else if r = OfNativeFunction 0 \<and> k = ''name'' then StringMember ''Object''
      else NoMember)"

section \<open>What \<^verbatim>\<open>get\<close> finds\<close>

text \<open>A member of the built-ins is a scalar, a function or an object of the runtime, so a
  mapping or a sequence that a read finds is the node of the document at the location of
  the path; and a node at a location is what the read along the path finds.\<close>

lemma of_member_scalar: "of_member m = Data w \<Longrightarrow> \<not> isObject w"
  by (cases m) auto

lemma spec_node_at_step:
  "spec_node_at d (s # ss) = Some n \<Longrightarrow> isObject d \<and> spec_node_at (get_prop d s) ss = Some n"
  by (cases d) (auto split: option.splits if_splits)

lemma spec_node_at_object: "spec_node_at d p = Some n \<Longrightarrow> p \<noteq> [] \<Longrightarrow> isObject d"
  by (cases p) (auto dest: spec_node_at_step)

lemma spec_node_at_append: "spec_node_at d p = Some c \<Longrightarrow> spec_node_at d (p @ q) = spec_node_at c q"
proof (induction p arbitrary: d)
  case Nil
  then show ?case by simp
next
  case (Cons s ss)
  then show ?case by (cases d) (auto split: option.splits if_splits)
qed

lemma lookup_node:
  "spec_node_at d [k] = Some c \<Longrightarrow> lookup env (Data d) k = Data c"
  by (cases d) (auto split: option.splits if_splits)

lemma lookup_object:
  assumes "lookup env r k = Data w" and "isObject w"
  shows "\<exists>v. r = Data v \<and> spec_node_at v [k] = Some w"
proof (cases r)
  case (Data v)
  with assms show ?thesis
    by (cases v) (auto split: option.splits if_splits dest: of_member_scalar)
qed (use assms in \<open>auto dest: of_member_scalar\<close>)

lemma walk_Throws [simp]: "walk env Throws p = Throws"
  by (cases p) auto

lemma walk_JUndef [simp]: "walk env (Data JUndef) p = Data JUndef"
  by (cases p) auto


lemma spec_node_at_walk:
  "spec_node_at d (map toKey p) = Some n \<Longrightarrow> walk env (Data d) p = Data n"
proof (induction p arbitrary: d)
  case Nil
  then show ?case by simp
next
  case (Cons s ss)
  from Cons.prems have st: "isObject d" "spec_node_at (get_prop d (toKey s)) (map toKey ss) = Some n"
    using spec_node_at_step [of d "toKey s" "map toKey ss" n] by simp_all
  from st(1) have "spec_node_at d [toKey s] = Some (get_prop d (toKey s))"
    using Cons.prems by (cases d) (auto split: option.splits if_splits)
  then have "lookup env (Data d) (toKey s) = Data (get_prop d (toKey s))"
    by (rule lookup_node)
  moreover from st(1) have "d \<noteq> JUndef" "d \<noteq> JNull" by auto
  ultimately show ?case using Cons.IH [OF st(2)] by simp
qed

lemma walk_object:
  "walk env r p = Data n \<Longrightarrow> isObject n \<Longrightarrow> \<exists>d. r = Data d \<and> spec_node_at d (map toKey p) = Some n"
proof (induction p arbitrary: r)
  case Nil
  then show ?case by simp
next
  case (Cons s ss)
  from Cons.prems have w: "walk env (lookup env r (toKey s)) ss = Data n"
    by (auto split: if_splits)
  from Cons.IH [OF w Cons.prems(2)] obtain c where
    c: "lookup env r (toKey s) = Data c" "spec_node_at c (map toKey ss) = Some n" by blast
  have "isObject c"
  proof (cases ss)
    case Nil
    with c(2) Cons.prems(2) show ?thesis by simp
  next
    case (Cons t ts)
    with c(2) show ?thesis by (auto dest: spec_node_at_step)
  qed
  from lookup_object [OF c(1) this] obtain v where
    v: "r = Data v" "spec_node_at v [toKey s] = Some c" by blast
  from spec_node_at_append [OF v(2), of "map toKey ss"] c(2)
  have "spec_node_at v (map toKey (s # ss)) = Some n" by simp
  with v(1) show ?case by blast
qed

lemma lodash_get_default:
  "lodash_get env object path d =
     (if lodash_get env object path (Data JUndef) = Data JUndef then d
      else lodash_get env object path (Data JUndef))"
  by (simp add: lodash_get_def Let_def)

lemma lodash_get_node:
  assumes "p \<noteq> []" and "spec_node_at d (map toKey p) = Some n"
  shows "lodash_get env d p dflt = (if n = JUndef then dflt else Data n)"
proof -
  from assms have "isObject d" by (auto dest: spec_node_at_object)
  then have "\<not> nullish d" by (cases d) auto
  with assms show ?thesis
    by (simp add: lodash_get_def baseGet_def spec_node_at_walk)
qed

lemma lodash_get_object:
  assumes "lodash_get env d p (Data JUndef) = Data n" and "isObject n"
  shows "p \<noteq> [] \<and> spec_node_at d (map toKey p) = Some n"
proof -
  from assms have "p \<noteq> []" and "walk env (Data d) p = Data n"
    by (auto simp: lodash_get_def baseGet_def Let_def split: if_splits)
  with walk_object [OF this(2) assms(2)] show ?thesis by simp
qed

text \<open>Without a member of the built-ins under the steps, a read gives a value of the
  document, a character or a length, or undefined.\<close>

lemma lookup_no_member:
  "\<forall>r. env r k = NoMember \<Longrightarrow> \<exists>v. lookup env (Data d) k = Data v"
  by (cases d) (auto split: option.splits)

lemma walk_no_member:
  "\<forall>s\<in>set p. \<forall>r. env r (toKey s) = NoMember \<Longrightarrow> \<exists>v. walk env (Data d) p = Data v"
proof (induction p arbitrary: d)
  case Nil
  show ?case by simp
next
  case (Cons s ss)
  from Cons.prems obtain c where "lookup env (Data d) (toKey s) = Data c"
    using lookup_no_member [of env "toKey s" d] by auto
  with Cons show ?case by auto
qed


section \<open>Termination of \<^verbatim>\<open>SchemaView\<close>\<close>

lemma refs_of_get_prop: "set (refs_of (get_prop v k)) \<subseteq> set (refs_of v)"
proof (cases v)
  case (JObj kvs)
  show ?thesis
  proof (cases "map_of kvs k")
    case None
    with JObj show ?thesis by simp
  next
    case (Some w)
    then have "(k, w) \<in> set kvs" by (rule map_of_SomeD)
    then have "set (refs_of w) \<subseteq> set (refs_of (JObj kvs))" by force
    with JObj Some show ?thesis by simp
  qed
next
  case (JArr xs)
  have "i < length xs \<Longrightarrow> set (refs_of (xs ! i)) \<subseteq> set (refs_of (JArr xs))" for i
    using nth_mem [of i xs] by fastforce
  with JArr show ?thesis by (simp split: option.splits)
qed (simp_all split: option.splits)

lemma refs_of_scalar: "\<not> isObject v \<Longrightarrow> refs_of v = []"
  by (cases v) auto

lemma refs_of_spec_node_at: "spec_node_at d p = Some n \<Longrightarrow> set (refs_of n) \<subseteq> set (refs_of d)"
proof (induction p arbitrary: d)
  case Nil
  then show ?case by simp
next
  case (Cons s ss)
  then have "set (refs_of n) \<subseteq> set (refs_of (get_prop d s))"
    by (auto dest: spec_node_at_step)
  also have "\<dots> \<subseteq> set (refs_of d)" by (rule refs_of_get_prop)
  finally show ?case .
qed

lemma refs_of_resolveRef:
  assumes "resolveRef env spec ref = Data r"
  shows "set (refs_of r) \<subseteq> set (refs_of spec)"
proof (cases "isObject r")
  case False
  then show ?thesis by (simp add: refs_of_scalar)
next
  case True
  with assms obtain p where "lodash_get env spec p (Data JNull) = Data r"
    by (auto simp: resolveRef_def resolveRef_call_def Let_def split: if_splits)
  with True have "lodash_get env spec p (Data JUndef) = Data r"
    by (subst (asm) lodash_get_default) (auto split: if_splits)
  from lodash_get_object [OF this True] show ?thesis by (auto dest: refs_of_spec_node_at)
qed

lemma ref_in_refs_of:
  assumes "has_key schema ''$ref''" and "get_prop schema ''$ref'' = JStr ref"
  shows "ref \<in> set (refs_of schema)"
proof (cases schema)
  case (JObj kvs)
  with assms have "map_of kvs ''$ref'' = Some (JStr ref)"
    by (auto split: option.splits)
  then have "(''$ref'', JStr ref) \<in> set kvs" by (rule map_of_SomeD)
  then show ?thesis using JObj by force
next
  case (JArr xs)
  with assms show ?thesis by (simp add: parse_uint_def reIsUint_def is_digit_def)
qed (use assms in auto)

lemma size_get_prop: "isObject v \<Longrightarrow> size (get_prop v k) < size v"
proof (cases v)
  case (JObj kvs)
  show ?thesis
  proof (cases "map_of kvs k")
    case None
    with JObj show ?thesis by simp
  next
    case (Some w)
    then have "(k, w) \<in> set kvs" by (rule map_of_SomeD)
    then have "size w < Suc (size_list (size_prod (\<lambda>_. 0) size) kvs)"
      by (induction kvs) auto
    with JObj Some show ?thesis by simp
  qed
next
  case (JArr xs)
  have "i < length xs \<Longrightarrow> size (xs ! i) < Suc (size_list size xs)" for i
    using size_list_estimation' [of "xs ! i" xs "size (xs ! i)" size] by simp
  with JArr show ?thesis by (simp split: option.splits)
qed simp_all

lemma object_entries_child:
  assumes "object_entries properties = Inr es" and "e \<in> set es"
  shows "size (snd e) \<le> size properties \<and> set (refs_of (snd e)) \<subseteq> set (refs_of properties)"
proof (cases properties)
  case (JObj kvs)
  with assms have mem: "e \<in> set kvs" by simp
  then have "size (snd e) \<le> size_list (size_prod (\<lambda>_. 0) size) kvs"
    by (induction kvs) auto
  moreover from mem have "set (refs_of (snd e)) \<subseteq> set (refs_of (JObj kvs))" by force
  ultimately show ?thesis using JObj by simp
next
  case (JArr xs)
  with assms have "(fst e, snd e) \<in> set (zip (map dec_nat [0..<length xs]) xs)" by simp
  then have mem: "snd e \<in> set xs" by (rule set_zip_rightD)
  then have "size (snd e) \<le> size_list size xs"
    by (induction xs) auto
  moreover from mem have "set (refs_of (snd e)) \<subseteq> set (refs_of (JArr xs))" by auto
  ultimately show ?thesis using JArr by simp
next
  case (JStr s)
  with assms have "(fst e, snd e) \<in> set (zip (map dec_nat [0..<length s]) (map (\<lambda>c. JStr [c]) s))"
    by simp
  then have "snd e \<in> set (map (\<lambda>c. JStr [c]) s)" by (rule set_zip_rightD)
  then obtain c where "snd e = JStr [c]" by auto
  then show ?thesis by simp
qed (use assms in auto)

termination SchemaView
proof (relation "(\<lambda>(env, spec, schema, visitedRefs).
                    card ((set (refs_of spec) \<union> set (refs_of schema)) - set visitedRefs))
                 <*mlex*> measure (\<lambda>(env, spec, schema, visitedRefs). size schema)",
       goal_cases)
  case 1
  show ?case by (simp add: wf_mlex)
next
  case (2 env spec schema visitedRefs ref resolvedSchema)
  let ?old = "(set (refs_of spec) \<union> set (refs_of schema)) - set visitedRefs"
  let ?new = "(set (refs_of spec) \<union> set (refs_of resolvedSchema)) - set (visitedRefs @ [ref])"
  from 2 have "ref \<in> set (refs_of schema)" by (auto intro: ref_in_refs_of)
  with 2 have "ref \<in> ?old" by simp
  moreover have "ref \<notin> ?new" by simp
  moreover from 2 have "?new \<subseteq> ?old" using refs_of_resolveRef [of env spec ref] by auto
  ultimately have "?new \<subset> ?old" by blast
  then have "card ?new < card ?old" by (intro psubset_card_mono) auto
  then show ?case by (simp add: mlex_iff)
next
  case (3 env spec schema visitedRefs type properties items required es e)
  from 3 have "size (snd e) \<le> size properties"
    and sub: "set (refs_of (snd e)) \<subseteq> set (refs_of properties)"
    using object_entries_child [of properties es e] by auto
  moreover from 3 have "size properties < size schema" by (auto intro: size_get_prop)
  moreover from 3 have "set (refs_of properties) \<subseteq> set (refs_of schema)"
    by (auto intro: refs_of_get_prop [THEN subsetD])
  ultimately have "size (snd e) < size schema"
    and "(set (refs_of spec) \<union> set (refs_of (snd e))) - set visitedRefs
         \<subseteq> (set (refs_of spec) \<union> set (refs_of schema)) - set visitedRefs" by auto
  moreover from this(2)
  have "card ((set (refs_of spec) \<union> set (refs_of (snd e))) - set visitedRefs)
        \<le> card ((set (refs_of spec) \<union> set (refs_of schema)) - set visitedRefs)"
    by (intro card_mono) auto
  ultimately show ?case by (auto simp: mlex_iff)
next
  case (4 env spec schema visitedRefs type properties items required)
  from 4 have "size items < size schema" by (auto intro: size_get_prop)
  moreover from 4 have "set (refs_of items) \<subseteq> set (refs_of schema)"
    by (auto intro: refs_of_get_prop [THEN subsetD])
  then have "(set (refs_of spec) \<union> set (refs_of items)) - set visitedRefs
         \<subseteq> (set (refs_of spec) \<union> set (refs_of schema)) - set visitedRefs" by auto
  then have "card ((set (refs_of spec) \<union> set (refs_of items)) - set visitedRefs)
        \<le> card ((set (refs_of spec) \<union> set (refs_of schema)) - set visitedRefs)"
    by (intro card_mono) auto
  ultimately show ?case by (auto simp: mlex_iff)
qed

declare SchemaView.simps [simp del]

section \<open>Numerals, entries and paths\<close>

text \<open>The numeral of a number is canonical and reads back as the number.\<close>

lemma digit_char_props:
  assumes "d < 10"
  shows "is_digit (digit_char d)" and "digit_val (digit_char d) = d"
    and "(digit_char d = CHR ''0'') = (d = 0)"
proof -
  have m: "(48 + d) mod 256 = 48 + d" using assms by simp
  show "is_digit (digit_char d)" using assms by (simp add: is_digit_def digit_char_def m)
  show "digit_val (digit_char d) = d" using assms by (simp add: digit_val_def digit_char_def m)
  have "digit_char d = CHR ''0'' \<longleftrightarrow> (of_char (digit_char d) :: nat) = of_char CHR ''0''"
    by (simp only: of_char_eq_iff)
  then show "(digit_char d = CHR ''0'') = (d = 0)" using assms by (simp add: digit_char_def m)
qed

lemma dec_nat_props:
  "dec_nat n \<noteq> [] \<and> list_all is_digit (dec_nat n) \<and> uint_val (dec_nat n) = n
   \<and> (hd (dec_nat n) = CHR ''0'') = (n = 0)"
proof (induction n rule: dec_nat.induct)
  case (1 n)
  show ?case
  proof (cases "n < 10")
    case True
    then show ?thesis
      by (simp add: dec_nat.simps [of n] digit_char_props uint_val_def)
  next
    case False
    with 1 have IH: "dec_nat (n div 10) \<noteq> []" "list_all is_digit (dec_nat (n div 10))"
      "uint_val (dec_nat (n div 10)) = n div 10"
      "(hd (dec_nat (n div 10)) = CHR ''0'') = (n div 10 = 0)" by simp_all
    have d: "n mod 10 < 10" by simp
    have eq: "dec_nat n = dec_nat (n div 10) @ [digit_char (n mod 10)]"
      using False by (simp add: dec_nat.simps [of n])
    have "uint_val (dec_nat n) = 10 * uint_val (dec_nat (n div 10)) + digit_val (digit_char (n mod 10))"
      unfolding eq by (simp add: uint_val_def)
    then have "uint_val (dec_nat n) = n" using IH(3) digit_char_props(2) [OF d] by simp
    moreover have "hd (dec_nat n) = hd (dec_nat (n div 10))" unfolding eq using IH(1) by simp
    moreover have "n div 10 \<noteq> 0" using False by simp
    ultimately show ?thesis using IH False digit_char_props(1) [OF d] by (simp add: eq)
  qed
qed

lemma parse_uint_dec_nat [simp]: "parse_uint (dec_nat n) = Some n"
proof -
  have "dec_nat 0 = ''0''"
    using digit_char_props(3) [of 0] by (simp add: dec_nat.simps [of 0])
  then have "reIsUint (dec_nat n)"
    using dec_nat_props [of n] by (auto simp: reIsUint_def)
  then show ?thesis using dec_nat_props [of n] by (simp add: parse_uint_def)
qed

lemma toKey_Idx_nat [simp]: "toKey (Idx (int n)) = dec_nat n"
  by simp

text \<open>Writing and deleting an entry, as a map.\<close>

lemma map_of_replace_val:
  "map_of kvs k \<noteq> None \<Longrightarrow> map_of (replace_val k v kvs) = (map_of kvs)(k \<mapsto> v)"
  by (induction kvs) (auto simp: fun_eq_iff)

lemma map_of_insert_index:
  "map_of kvs k = None \<Longrightarrow> map_of (insert_index i k v kvs) = (map_of kvs)(k \<mapsto> v)"
proof (induction kvs)
  case Nil
  show ?case by simp
next
  case (Cons e es)
  then have "fst e \<noteq> k" "map_of es k = None" by (auto split: if_splits)
  with Cons.IH show ?case
    by (cases e) (auto simp: fun_eq_iff split: option.splits)
qed

lemma map_of_put_entry: "map_of (put_entry kvs k v) = (map_of kvs)(k \<mapsto> v)"
proof (cases "map_of kvs k")
  case None
  then show ?thesis
    by (auto simp: put_entry_def map_of_insert_index fun_eq_iff map_add_def
        split: option.splits)
next
  case (Some w)
  then show ?thesis by (simp add: put_entry_def map_of_replace_val)
qed

lemma map_of_delete_entry: "map_of (delete_entry kvs k) = (map_of kvs)(k := None)"
  by (induction kvs) (auto simp: delete_entry_def fun_eq_iff)

lemma replace_val_twice: "replace_val k v (replace_val k w kvs) = replace_val k v kvs"
  by (induction kvs) auto

lemma replace_val_same: "map_of kvs k = Some v \<Longrightarrow> replace_val k v kvs = kvs"
  by (induction kvs) (auto split: if_splits)

lemma delete_entry_absent: "map_of kvs k = None \<Longrightarrow> delete_entry kvs k = kvs"
  by (induction kvs) (auto simp: delete_entry_def split: if_splits)

lemma delete_entry_replace_val: "delete_entry (replace_val k v kvs) k = delete_entry kvs k"
  by (induction kvs) (auto simp: delete_entry_def)

lemma delete_entry_insert_index: "delete_entry (insert_index i k v kvs) k = delete_entry kvs k"
  by (induction kvs) (auto simp: delete_entry_def split: option.splits)

lemma delete_entry_put_entry: "delete_entry (put_entry kvs k v) k = delete_entry kvs k"
  by (auto simp: put_entry_def delete_entry_replace_val delete_entry_insert_index
      split: option.splits) (simp add: delete_entry_def)

text \<open>A node at a location is there again after it was replaced, with the
  replacement.\<close>

lemma spec_node_at_write_at:
  "spec_node_at d (map toKey p) = Some c \<Longrightarrow> spec_node_at (write_at d p m) (map toKey p) = Some m"
proof (induction p arbitrary: d)
  case Nil
  show ?case by simp
next
  case (Cons s ss)
  from Cons.prems have st: "isObject d"
    "spec_node_at (get_prop d (toKey s)) (map toKey ss) = Some c"
    using spec_node_at_step [of d "toKey s" "map toKey ss" c] by simp_all
  note IH = Cons.IH [OF st(2)]
  show ?case
  proof (cases d)
    case (JObj kvs)
    with Cons.prems have "map_of kvs (toKey s) \<noteq> None" by (auto split: option.splits)
    then show ?thesis using JObj IH by (simp add: map_of_replace_val)
  next
    case (JArr xs)
    with Cons.prems obtain i where "parse_uint (toKey s) = Some i" "i < length xs"
      by (auto split: option.splits if_splits)
    then show ?thesis using JArr IH by simp
  qed (use st(1) in simp_all)
qed

lemma write_at_write_at:
  "spec_node_at d (map toKey p) = Some c \<Longrightarrow> write_at (write_at d p n) p m = write_at d p m"
proof (induction p arbitrary: d)
  case Nil
  show ?case by simp
next
  case (Cons s ss)
  from Cons.prems have st: "isObject d"
    "spec_node_at (get_prop d (toKey s)) (map toKey ss) = Some c"
    using spec_node_at_step [of d "toKey s" "map toKey ss" c] by simp_all
  note IH = Cons.IH [OF st(2)]
  show ?case
  proof (cases d)
    case (JObj kvs)
    with Cons.prems have "map_of kvs (toKey s) \<noteq> None" by (auto split: option.splits)
    then show ?thesis using JObj IH by (simp add: map_of_replace_val replace_val_twice)
  next
    case (JArr xs)
    with Cons.prems obtain i where "parse_uint (toKey s) = Some i" "i < length xs"
      by (auto split: option.splits if_splits)
    then show ?thesis using JArr IH by simp
  qed (use st(1) in simp_all)
qed

lemma write_at_object:
  assumes "spec_node_at d (map toKey p) = Some c" and "p \<noteq> []"
  shows "isObject (write_at d p n)"
proof -
  from assms obtain s ss where p: "p = s # ss" by (cases p) auto
  from assms have "isObject d" by (auto dest: spec_node_at_object)
  then show ?thesis unfolding p by (cases d) (auto split: option.splits)
qed

lemma get_write_at:
  assumes "p \<noteq> []" and "spec_node_at d (map toKey p) = Some c" and "m \<noteq> JUndef"
  shows "lodash_get env (write_at d p m) p (Data JUndef) = Data m"
  using lodash_get_node [OF assms(1) spec_node_at_write_at [OF assms(2)], where env = env] assms(3)
  by simp

lemma spec_node_at_child:
  "spec_node_at d (map toKey p) = Some c \<Longrightarrow> spec_node_at d (map toKey p @ [k]) = spec_node_at c [k]"
  by (rule spec_node_at_append)

lemma splice1_in_range:
  "i < length xs \<Longrightarrow> splice1 (Finite (int i)) xs = take i xs @ drop (Suc i) xs"
  by (simp add: splice1_def Let_def min_def)

lemmas eval_defs = lodash_get_def baseGet_def cloneDeep_def Let_def
  parse_uint_def reIsUint_def is_digit_def array_index_def put_entry_def delete_entry_def
  sample_builtins_def

lemmas sample_defs = sample_JSON_parse_def sample_yaml_load_def sample_JSON_stringify_def
  sample_yaml_dump_def sample_library_def idle_state_def

section \<open>The reference resolver: claim C8\<close>




lemma startsWith_prefix: "startsWith ref ''#/'' = (take 2 ref = ''#/'')"
  by (simp add: startsWith_def numeral_2_eq_2)

lemma resolveRef_get:
  "resolveRef env spec ref =
     (if take 2 ref = ''#/''
      then lodash_get env spec (map Key (split_on CHR ''/'' (drop 2 ref))) (Data JNull)
      else Data JNull)"
  by (simp add: resolveRef_def resolveRef_call_def startsWith_prefix Let_def)

lemma toKey_Key [simp]: "map (toKey \<circ> Key) steps = steps"
  by (induction steps) auto




section \<open>The sync controller: claims C1, C7, C10 and C3\<close>

text \<open>
  Claim C1 says that a text that parses neither as JSON nor as YAML leaves the document
  at its previous value. The handler of the failure calls \<^verbatim>\<open>setParsedSpec(null)\<close>: on
  the text \<^verbatim>\<open>{\<close>, which both parsers refuse, the document \<^verbatim>\<open>{}\<close> is replaced by null.
\<close>

theorem parse_error_clears_document:
  "JSON_parse sample_library ''{'' = None
   \<and> yaml_load sample_library ''{''
       = Inl ''unexpected end of the stream within a flow collection''
   \<and> \<not> isUpdatingFromView idle_state
   \<and> parsedSpec idle_state = JObj []
   \<and> parsedSpec (parseSpec sample_library idle_state ''{'') = JNull"
  by (simp add: sample_defs parseSpec_def parse_failed_def)

text \<open>
  Claim C1, amended. When \<open>parseSpec\<close> processes a text (the suppression flag is not
  set) that \<^verbatim>\<open>JSON.parse\<close> and \<^verbatim>\<open>yaml.load\<close> both refuse, the document becomes null
  and the error becomes a message that is not empty: the message of the YAML exception,
  or a fixed text when that message is empty. The text, the format tag and the flag stay
  as they were.
\<close>

theorem parse_error_state:
  assumes "\<not> isUpdatingFromView st" and "JSON_parse lib t = None" and "yaml_load lib t = Inl m"
  shows "parseSpec lib st t
           = st\<lparr>parsedSpec := JNull,
                 parseError := Some (if m \<noteq> [] then m else ''Invalid YAML or JSON format.'')\<rparr>
         \<and> (if m \<noteq> [] then m else ''Invalid YAML or JSON format.'') \<noteq> []"
  using assms by (simp add: parseSpec_def parse_failed_def)

theorem parse_error_state_witness:
  "\<not> isUpdatingFromView idle_state
   \<and> JSON_parse sample_library ''{'' = None
   \<and> parseSpec sample_library idle_state ''{''
       = idle_state\<lparr>parsedSpec := JNull,
                     parseError := Some ''unexpected end of the stream within a flow collection''\<rparr>"
  using parse_error_state [of idle_state sample_library "''{''"
      "''unexpected end of the stream within a flow collection''"]
  by (simp add: sample_defs)

text \<open>
  Claim C7 says that the format tag is yaml, the document the parsed value and the error
  cleared whenever only the YAML parser succeeds. The text \<^verbatim>\<open>hello\<close> is no JSON, and
  \<^verbatim>\<open>yaml.load\<close> returns the string \<^verbatim>\<open>hello\<close> for it; the controller then sets the
  document to null, leaves the format tag at json and reports an error.
\<close>

theorem yaml_scalar_not_accepted:
  "JSON_parse sample_library ''hello'' = None
   \<and> yaml_load sample_library ''hello'' = Inr (JStr ''hello'')
   \<and> \<not> isUpdatingFromView idle_state
   \<and> parsedSpec (parseSpec sample_library idle_state ''hello'') = JNull
   \<and> specFormat (parseSpec sample_library idle_state ''hello'') = Json
   \<and> parseError (parseSpec sample_library idle_state ''hello'')
       = Some ''Invalid YAML: content must be an object.''"
  by (simp add: sample_defs parseSpec_def parse_failed_def)

text \<open>
  Claim C7, amended. When \<open>parseSpec\<close> processes a text, it tries \<^verbatim>\<open>JSON.parse\<close> first:
  if that succeeds, the document is the parsed value, the error is cleared and the format
  tag is json, whatever the YAML parser would do with the text. If \<^verbatim>\<open>JSON.parse\<close> fails
  and \<^verbatim>\<open>yaml.load\<close> returns an object or an array, the document is that value, the
  error is cleared and the format tag is yaml.
\<close>

theorem parse_json_then_yaml:
  assumes "\<not> isUpdatingFromView st"
  shows "(JSON_parse lib t = Some v \<longrightarrow>
            parseSpec lib st t = st\<lparr>parsedSpec := v, parseError := None, specFormat := Json\<rparr>
            \<and> parseSpec (lib\<lparr>yaml_load := other\<rparr>) st t = parseSpec lib st t)
       \<and> (JSON_parse lib t = None \<and> yaml_load lib t = Inr v \<and> isObject v \<longrightarrow>
            parseSpec lib st t = st\<lparr>parsedSpec := v, parseError := None, specFormat := Yaml\<rparr>)"
  using assms by (cases v) (auto simp: parseSpec_def)

theorem parse_json_then_yaml_witness:
  "\<not> isUpdatingFromView idle_state
   \<and> parseSpec sample_library idle_state ''[1]''
     = idle_state\<lparr>parsedSpec := JArr [JNum 1], parseError := None, specFormat := Json\<rparr>
   \<and> parseSpec (sample_library\<lparr>yaml_load := \<lambda>t. Inr JNull\<rparr>) idle_state ''[1]''
     = parseSpec sample_library idle_state ''[1]''
   \<and> parseSpec sample_library idle_state ''a: 1''
     = idle_state\<lparr>parsedSpec := JObj [(''a'', JNum 1)], parseError := None, specFormat := Yaml\<rparr>"
  using parse_json_then_yaml [of idle_state sample_library "''[1]''" "JArr [JNum 1]"
      "\<lambda>t. Inr JNull"]
    parse_json_then_yaml [of idle_state sample_library "''a: 1''" "JObj [(''a'', JNum 1)]"]
  by (simp add: sample_defs)

text \<open>
  Claim C10. The object root is required on the YAML branch only. For a value \<open>v\<close> that
  is no object and no array: when \<^verbatim>\<open>JSON.parse\<close> returns \<open>v\<close> for the text, the document
  becomes \<open>v\<close>, the format tag json and no error is reported; when \<^verbatim>\<open>JSON.parse\<close> fails
  and \<^verbatim>\<open>yaml.load\<close> returns \<open>v\<close>, the document becomes null and the error is
  \<^verbatim>\<open>Invalid YAML: content must be an object.\<close>
\<close>

theorem object_root_only_on_yaml_branch:
  assumes "\<not> isUpdatingFromView st" and "\<not> isObject v"
  shows "(JSON_parse lib t = Some v \<longrightarrow>
            parseSpec lib st t = st\<lparr>parsedSpec := v, parseError := None, specFormat := Json\<rparr>)
       \<and> (JSON_parse lib t = None \<and> yaml_load lib t = Inr v \<longrightarrow>
            parseSpec lib st t
              = st\<lparr>parsedSpec := JNull,
                    parseError := Some ''Invalid YAML: content must be an object.''\<rparr>)"
  using assms by (cases v) (auto simp: parseSpec_def parse_failed_def)

theorem object_root_only_on_yaml_branch_witness:
  "\<not> isUpdatingFromView idle_state
   \<and> parseSpec sample_library idle_state ''5''
     = idle_state\<lparr>parsedSpec := JNum 5, parseError := None, specFormat := Json\<rparr>
   \<and> parseSpec sample_library idle_state ''hello''
     = idle_state\<lparr>parsedSpec := JNull,
                   parseError := Some ''Invalid YAML: content must be an object.''\<rparr>"
  using object_root_only_on_yaml_branch [of idle_state "JNum 5" sample_library "''5''"]
    object_root_only_on_yaml_branch [of idle_state "JStr ''hello''" sample_library "''hello''"]
  by (simp add: sample_defs)

text \<open>
  Claim C3 says that the suppression flag never stays set across text changes, so that an
  edit of the user is always parsed. The effect sets the flag before it serializes, and
  the flag is cleared by the next call of \<open>parseSpec\<close> only. When the serialized text is
  the text already shown, \<^verbatim>\<open>setSpecString\<close> changes nothing, no call of \<open>parseSpec\<close>
  follows, and the flag stays set. A run: the component is mounted on a YAML text, parses
  it, writes its serialization back and consumes that echo; the user types \<^verbatim>\<open>{ }\<close>, it
  is parsed, \<^verbatim>\<open>{}\<close> is written back and that echo is consumed, which leaves the
  component idle on \<^verbatim>\<open>{}\<close>. The user types \<^verbatim>\<open>[]\<close>: it is parsed, and its
  serialization is \<^verbatim>\<open>[]\<close> again, so the flag stays set with nothing waiting. The user
  types \<^verbatim>\<open>[1]\<close>: the call of \<open>parseSpec\<close> clears the flag and returns, and the
  document is still \<^verbatim>\<open>[]\<close> while the text is \<^verbatim>\<open>[1]\<close>.
\<close>

theorem echo_missing_swallows_edit:
  "run sample_library (initial_state ''a: 1'') [Fire, Fire, Edit ''{ }'', Fire, Fire] = idle_state
   \<and> run sample_library idle_state [Edit ''[]'', Fire]
       = idle_state\<lparr>specString := ''[]'', parsedSpec := JArr [], isUpdatingFromView := True\<rparr>
   \<and> run sample_library idle_state [Edit ''[]'', Fire, Edit ''[1]'', Fire]
       = idle_state\<lparr>specString := ''[1]'', parsedSpec := JArr []\<rparr>
   \<and> JSON_parse sample_library ''[1]'' = Some (JArr [JNum 1])"
  by (simp add: sample_defs initial_state_def setSpecString_def parseSpec_def
      after_render_def serializeEffect_def Let_def)

section \<open>The mutation engine: claims C2, C5 and C6\<close>

text \<open>
  Claim C2 says that \<open>AddItem\<close> on an absent path with an item that is no sequence makes
  the location a one-element sequence. The handler writes \<open>[item]\<close> at the path, reads
  the collection back, finds an array and pushes \<open>item\<close> onto it: the location holds the
  item twice. Here the document has no \<^verbatim>\<open>servers\<close> and a server is added.
\<close>

theorem add_item_absent_twice:
  "lodash_get sample_builtins (JObj [(''openapi'', JStr ''3.0.0'')]) [Key ''servers'']
       (Data JUndef) = Data JUndef
   \<and> handleAddItem sample_builtins (JObj [(''openapi'', JStr ''3.0.0'')]) [Key ''servers'']
         (JObj [(''url'', JStr ''/v1'')])
       = Inr (JObj [(''openapi'', JStr ''3.0.0''),
                    (''servers'', JArr [JObj [(''url'', JStr ''/v1'')],
                                        JObj [(''url'', JStr ''/v1'')]])])"
  by (simp add: handleAddItem_def lodash_set_def eval_defs)

text \<open>
  Claim C5 says that \<open>RemoveItem\<close> deletes the key when the parent is a mapping. The
  parent of a one-step path is the root, at the empty parent path, where \<^verbatim>\<open>get\<close> finds
  nothing: on a document whose root is a mapping with the key \<^verbatim>\<open>info\<close>, the removal of
  that key returns the document as it was, with the key.
\<close>

theorem remove_root_key_kept:
  "butlast [Key ''info''] = []
   \<and> spec_node_at sample_doc (map toKey (butlast [Key ''info''])) = Some sample_doc
   \<and> sample_doc = JObj [(''servers'', JArr [JNum 1, JNum 2, JNum 3]),
                        (''info'', JObj [(''title'', JStr ''t''), (''version'', JStr ''1'')])]
   \<and> handleRemoveItemByPath sample_builtins sample_toInteger sample_doc [Key ''info'']
       = Inr sample_doc
   \<and> spec_node_at sample_doc [''info'']
       = Some (JObj [(''title'', JStr ''t''), (''version'', JStr ''1'')])"
  by (simp add: sample_doc_def handleRemoveItemByPath_def eval_defs)

text \<open>
  Claim C5, amended. \<open>RemoveItem\<close> on a path of a parent path and a last step, on a
  document that the form shows (a truthy one). When the parent path has a step, a
  sequence or a mapping is what \<^verbatim>\<open>get\<close> finds at it exactly when it is the node at
  it. When the parent path has a step and the node at it is a sequence with the last
  step an index \<open>i\<close> of it, the sequence loses the
  element \<open>i\<close> and nothing else: the path to an index \<open>j\<close> after \<open>i\<close> before the removal
  and the path to \<open>j - 1\<close> after it are at the same element, and the paths to the indices
  before \<open>i\<close> are at the elements they were at. When the parent path has a step and the
  node at it is a mapping, the key of the last step is deleted from it, the other keys
  keep their values, and the path is at no node afterwards. When there is no sequence
  and no mapping at the parent path, and no step of the parent path is the name of a
  member of a built-in, the document is returned unchanged. A path of one step, whose
  parent is the root, returns the document unchanged. No case throws. A last step that
  is no index of the sequence is outside the statement (\<^verbatim>\<open>splice\<close> clamps its start),
  and so is a parent path that leads into a built-in.
\<close>

theorem remove_item_by_path:
  assumes "truthy d"
  shows "(parentPath \<noteq> [] \<and> isObject c \<longrightarrow>
            (lodash_get env d parentPath (Data JUndef) = Data c)
              = (spec_node_at d (map toKey parentPath) = Some c))
       \<and> (parentPath \<noteq> [] \<and> spec_node_at d (map toKey parentPath) = Some (JArr xs)
            \<and> splice_start toInteger itemKey = Finite (int i) \<and> i < length xs \<longrightarrow>
          (\<exists>d'. handleRemoveItemByPath env toInteger d (parentPath @ [itemKey]) = Inr d'
             \<and> spec_node_at d' (map toKey parentPath) = Some (JArr (take i xs @ drop (Suc i) xs))
             \<and> lodash_get env d' parentPath (Data JUndef)
                 = Data (JArr (take i xs @ drop (Suc i) xs))
             \<and> (\<forall>j. i < j \<and> j < length xs \<longrightarrow>
                    spec_node_at d' (map toKey (parentPath @ [Idx (int j - 1)]))
                      = spec_node_at d (map toKey (parentPath @ [Idx (int j)])))
             \<and> (\<forall>j. j < i \<longrightarrow>
                    spec_node_at d' (map toKey (parentPath @ [Idx (int j)]))
                      = spec_node_at d (map toKey (parentPath @ [Idx (int j)])))))
       \<and> (parentPath \<noteq> [] \<and> spec_node_at d (map toKey parentPath) = Some (JObj kvs) \<longrightarrow>
          (\<exists>d'. handleRemoveItemByPath env toInteger d (parentPath @ [itemKey]) = Inr d'
             \<and> spec_node_at d' (map toKey parentPath)
                 = Some (JObj (delete_entry kvs (toKey itemKey)))
             \<and> lodash_get env d' parentPath (Data JUndef)
                 = Data (JObj (delete_entry kvs (toKey itemKey)))
             \<and> map_of (delete_entry kvs (toKey itemKey)) = (map_of kvs)(toKey itemKey := None)
             \<and> spec_node_at d' (map toKey (parentPath @ [itemKey])) = None))
       \<and> ((\<forall>c. spec_node_at d (map toKey parentPath) = Some c \<longrightarrow> \<not> isObject c)
            \<and> (\<forall>s\<in>set parentPath. \<forall>r. env r (toKey s) = NoMember) \<longrightarrow>
            handleRemoveItemByPath env toInteger d (parentPath @ [itemKey]) = Inr d)
       \<and> handleRemoveItemByPath env toInteger d [itemKey] = Inr d"
proof (intro conjI impI)
  assume h: "parentPath \<noteq> [] \<and> isObject c"
  show "(lodash_get env d parentPath (Data JUndef) = Data c)
          = (spec_node_at d (map toKey parentPath) = Some c)"
  proof
    assume "lodash_get env d parentPath (Data JUndef) = Data c"
    with h show "spec_node_at d (map toKey parentPath) = Some c"
      by (simp add: lodash_get_object)
  next
    assume "spec_node_at d (map toKey parentPath) = Some c"
    with h show "lodash_get env d parentPath (Data JUndef) = Data c"
      using lodash_get_node [of parentPath d c env "Data JUndef"] by auto
  qed
next
  assume h: "parentPath \<noteq> [] \<and> spec_node_at d (map toKey parentPath) = Some (JArr xs)
               \<and> splice_start toInteger itemKey = Finite (int i) \<and> i < length xs"
  let ?ys = "take i xs @ drop (Suc i) xs"
  let ?d' = "write_at d parentPath (JArr ?ys)"
  from h have ne: "parentPath \<noteq> []" and na: "spec_node_at d (map toKey parentPath) = Some (JArr xs)"
    by simp_all
  have g: "lodash_get env d parentPath (Data JUndef) = Data (JArr xs)"
    using lodash_get_node [OF ne na, of env "Data JUndef"] by simp
  from h g assms have res: "handleRemoveItemByPath env toInteger d (parentPath @ [itemKey]) = Inr ?d'"
    by (simp add: handleRemoveItemByPath_def cloneDeep_def splice1_in_range)
  have par: "spec_node_at ?d' (map toKey parentPath) = Some (JArr ?ys)"
    using na by (rule spec_node_at_write_at)
  have parg: "lodash_get env ?d' parentPath (Data JUndef) = Data (JArr ?ys)"
    using ne na by (rule get_write_at) simp
  have after: "spec_node_at ?d' (map toKey (parentPath @ [Idx (int j - 1)]))
                 = spec_node_at d (map toKey (parentPath @ [Idx (int j)]))"
    if "i < j \<and> j < length xs" for j
  proof -
    from that obtain m where m: "j = Suc m" by (cases j) auto
    with that have "?ys ! m = xs ! j" and "m < length ?ys"
      by (auto simp: nth_append min_def)
    moreover have "int j - 1 = int m" using m by simp
    ultimately show ?thesis
      using that by (simp add: spec_node_at_child [OF par] spec_node_at_child [OF na] del: toKey.simps)
  qed
  have before: "spec_node_at ?d' (map toKey (parentPath @ [Idx (int j)]))
                 = spec_node_at d (map toKey (parentPath @ [Idx (int j)]))"
    if "j < i" for j
  proof -
    from that h have "?ys ! j = xs ! j" and "j < length ?ys" and "j < length xs"
      by (auto simp: nth_append min_def)
    then show ?thesis
      by (simp add: spec_node_at_child [OF par] spec_node_at_child [OF na] del: toKey.simps)
  qed
  show "\<exists>d'. handleRemoveItemByPath env toInteger d (parentPath @ [itemKey]) = Inr d'
             \<and> spec_node_at d' (map toKey parentPath) = Some (JArr ?ys)
             \<and> lodash_get env d' parentPath (Data JUndef) = Data (JArr ?ys)
             \<and> (\<forall>j. i < j \<and> j < length xs \<longrightarrow>
                    spec_node_at d' (map toKey (parentPath @ [Idx (int j - 1)]))
                      = spec_node_at d (map toKey (parentPath @ [Idx (int j)])))
             \<and> (\<forall>j. j < i \<longrightarrow>
                    spec_node_at d' (map toKey (parentPath @ [Idx (int j)]))
                      = spec_node_at d (map toKey (parentPath @ [Idx (int j)])))"
    using res par parg after before by blast
next
  assume h: "parentPath \<noteq> [] \<and> spec_node_at d (map toKey parentPath) = Some (JObj kvs)"
  let ?kvs' = "delete_entry kvs (toKey itemKey)"
  let ?d' = "write_at d parentPath (JObj ?kvs')"
  from h have ne: "parentPath \<noteq> []" and na: "spec_node_at d (map toKey parentPath) = Some (JObj kvs)"
    by simp_all
  have g: "lodash_get env d parentPath (Data JUndef) = Data (JObj kvs)"
    using lodash_get_node [OF ne na, of env "Data JUndef"] by simp
  from g assms have res: "handleRemoveItemByPath env toInteger d (parentPath @ [itemKey]) = Inr ?d'"
    by (simp add: handleRemoveItemByPath_def cloneDeep_def)
  have par: "spec_node_at ?d' (map toKey parentPath) = Some (JObj ?kvs')"
    using na by (rule spec_node_at_write_at)
  have parg: "lodash_get env ?d' parentPath (Data JUndef) = Data (JObj ?kvs')"
    using ne na by (rule get_write_at) simp
  have "spec_node_at ?d' (map toKey (parentPath @ [itemKey])) = None"
    by (simp add: spec_node_at_child [OF par] map_of_delete_entry del: toKey.simps)
  with res par parg
  show "\<exists>d'. handleRemoveItemByPath env toInteger d (parentPath @ [itemKey]) = Inr d'
             \<and> spec_node_at d' (map toKey parentPath) = Some (JObj ?kvs')
             \<and> lodash_get env d' parentPath (Data JUndef) = Data (JObj ?kvs')
             \<and> map_of ?kvs' = (map_of kvs)(toKey itemKey := None)
             \<and> spec_node_at d' (map toKey (parentPath @ [itemKey])) = None"
    by (simp add: map_of_delete_entry)
next
  assume h: "(\<forall>c. spec_node_at d (map toKey parentPath) = Some c \<longrightarrow> \<not> isObject c)
            \<and> (\<forall>s\<in>set parentPath. \<forall>r. env r (toKey s) = NoMember)"
  then obtain v where w: "walk env (Data d) parentPath = Data v"
    using walk_no_member [of parentPath env d] by blast
  then have "\<exists>u. lodash_get env d parentPath (Data JUndef) = Data u"
    by (auto simp: lodash_get_def baseGet_def Let_def)
  then obtain u where g: "lodash_get env d parentPath (Data JUndef) = Data u" ..
  have "\<not> isObject u"
  proof
    assume ob: "isObject u"
    from lodash_get_object [OF g ob] h ob show False by simp
  qed
  with g assms show "handleRemoveItemByPath env toInteger d (parentPath @ [itemKey]) = Inr d"
    by (cases u) (simp_all add: handleRemoveItemByPath_def cloneDeep_def)
next
  from assms show "handleRemoveItemByPath env toInteger d [itemKey] = Inr d"
    by (simp add: handleRemoveItemByPath_def cloneDeep_def lodash_get_def baseGet_def)
qed

theorem remove_item_by_path_witness:
  "truthy sample_doc
   \<and> lodash_get sample_builtins sample_doc [Key ''servers''] (Data JUndef)
       = Data (JArr [JNum 1, JNum 2, JNum 3])
   \<and> handleRemoveItemByPath sample_builtins sample_toInteger sample_doc [Key ''servers'', Idx 1]
       = Inr (JObj [(''servers'', JArr [JNum 1, JNum 3]),
                    (''info'', JObj [(''title'', JStr ''t''), (''version'', JStr ''1'')])])
   \<and> (\<exists>d'. handleRemoveItemByPath sample_builtins sample_toInteger sample_doc
               [Key ''servers'', Idx 1] = Inr d'
          \<and> spec_node_at d' (map toKey [Key ''servers'', Idx 1]) = Some (JNum 3)
          \<and> spec_node_at sample_doc (map toKey [Key ''servers'', Idx 2]) = Some (JNum 3))
   \<and> (\<exists>d'. handleRemoveItemByPath sample_builtins sample_toInteger sample_doc
               [Key ''info'', Key ''title''] = Inr d'
          \<and> spec_node_at d' [''info''] = Some (JObj [(''version'', JStr ''1'')])
          \<and> spec_node_at d' [''info'', ''title''] = None)
   \<and> handleRemoveItemByPath sample_builtins sample_toInteger sample_doc [Key ''tags'', Idx 0]
       = Inr sample_doc
   \<and> handleRemoveItemByPath sample_builtins sample_toInteger sample_doc [Key ''servers'']
       = Inr sample_doc"
proof -
  have t: "truthy sample_doc" by (simp add: sample_doc_def)
  note rm = remove_item_by_path [OF t, where env = sample_builtins
      and toInteger = sample_toInteger]
  have a: "[Key ''servers''] \<noteq> []
             \<and> spec_node_at sample_doc (map toKey [Key ''servers''])
                 = Some (JArr [JNum 1, JNum 2, JNum 3])
             \<and> splice_start sample_toInteger (Idx 1) = Finite (int 1)
             \<and> 1 < length [JNum 1, JNum 2, JNum 3]"
    by (simp add: sample_doc_def splice_start_def)
  have b: "[Key ''info''] \<noteq> []
             \<and> spec_node_at sample_doc (map toKey [Key ''info''])
                 = Some (JObj [(''title'', JStr ''t''), (''version'', JStr ''1'')])"
    by (simp add: sample_doc_def)
  have c: "(\<forall>c. spec_node_at sample_doc (map toKey [Key ''tags'']) = Some c \<longrightarrow> \<not> isObject c)
             \<and> (\<forall>s\<in>set [Key ''tags'']. \<forall>r. sample_builtins r (toKey s) = NoMember)"
    by (simp add: sample_doc_def sample_builtins_def)
  have two: "spec_node_at sample_doc (map toKey [Key ''servers'', Idx 2]) = Some (JNum 3)"
    by (simp add: sample_doc_def)
  have e: "handleRemoveItemByPath sample_builtins sample_toInteger sample_doc
             [Key ''servers'', Idx 1]
       = Inr (JObj [(''servers'', JArr [JNum 1, JNum 3]),
                    (''info'', JObj [(''title'', JStr ''t''), (''version'', JStr ''1'')])])"
    by (simp add: sample_doc_def handleRemoveItemByPath_def splice_start_def splice1_def
        eval_defs)
  from rm [where parentPath = "[Key ''servers'']" and c = "JArr [JNum 1, JNum 2, JNum 3]"] a
  have p0: "lodash_get sample_builtins sample_doc [Key ''servers''] (Data JUndef)
              = Data (JArr [JNum 1, JNum 2, JNum 3])"
    by simp
  from rm [where parentPath = "[Key ''servers'']" and xs = "[JNum 1, JNum 2, JNum 3]"
      and itemKey = "Idx 1" and i = 1] a
  obtain d1 where d1: "handleRemoveItemByPath sample_builtins sample_toInteger sample_doc
                         [Key ''servers'', Idx 1] = Inr d1"
    "\<forall>j. 1 < j \<and> j < length [JNum 1, JNum 2, JNum 3] \<longrightarrow>
        spec_node_at d1 (map toKey ([Key ''servers''] @ [Idx (int j - 1)]))
          = spec_node_at sample_doc (map toKey ([Key ''servers''] @ [Idx (int j)]))"
    by auto
  from d1(2) have "spec_node_at d1 (map toKey [Key ''servers'', Idx 1])
              = spec_node_at sample_doc (map toKey [Key ''servers'', Idx 2])"
    by (auto dest: spec [of _ 2])
  with two have "spec_node_at d1 (map toKey [Key ''servers'', Idx 1]) = Some (JNum 3)" by simp
  with d1(1) two
  have p1: "\<exists>d'. handleRemoveItemByPath sample_builtins sample_toInteger sample_doc
               [Key ''servers'', Idx 1] = Inr d'
          \<and> spec_node_at d' (map toKey [Key ''servers'', Idx 1]) = Some (JNum 3)
          \<and> spec_node_at sample_doc (map toKey [Key ''servers'', Idx 2]) = Some (JNum 3)" by blast
  from rm [where parentPath = "[Key ''info'']"
      and kvs = "[(''title'', JStr ''t''), (''version'', JStr ''1'')]"
      and itemKey = "Key ''title''"] b
  have p2: "\<exists>d'. handleRemoveItemByPath sample_builtins sample_toInteger sample_doc
               [Key ''info'', Key ''title''] = Inr d'
          \<and> spec_node_at d' [''info''] = Some (JObj [(''version'', JStr ''1'')])
          \<and> spec_node_at d' [''info'', ''title''] = None"
    by (auto simp: delete_entry_def)
  from rm [where parentPath = "[Key ''tags'']" and itemKey = "Idx 0"] c
  have p3: "handleRemoveItemByPath sample_builtins sample_toInteger sample_doc
              [Key ''tags'', Idx 0] = Inr sample_doc"
    by simp
  from rm [where itemKey = "Key ''servers''"]
  have p4: "handleRemoveItemByPath sample_builtins sample_toInteger sample_doc [Key ''servers'']
              = Inr sample_doc"
    by simp
  from t p0 e p1 p2 p3 p4 show ?thesis by blast
qed




section \<open>\<^verbatim>\<open>SchemaView\<close>: claim C9\<close>

text \<open>Every reference that a rendering follows is a reference string of the document or
  of the schema that is not yet visited, so the frames around a view are at most as many
  as those strings.\<close>

lemma foldr_max_le:
  "(\<And>e. e \<in> set es \<Longrightarrow> f e \<le> b) \<Longrightarrow> foldr (\<lambda>e m. max (f e) m) es (0::nat) \<le> b"
  by (induction es) auto

lemma ref_step_card:
  assumes "has_key schema ''$ref''" and "get_prop schema ''$ref'' = JStr ref"
    and "ref \<notin> set visitedRefs" and "set (refs_of r) \<subseteq> set (refs_of spec)"
  shows "card ((set (refs_of spec) \<union> set (refs_of r)) - set (visitedRefs @ [ref]))
         < card ((set (refs_of spec) \<union> set (refs_of schema)) - set visitedRefs)"
proof -
  let ?old = "(set (refs_of spec) \<union> set (refs_of schema)) - set visitedRefs"
  let ?new = "(set (refs_of spec) \<union> set (refs_of r)) - set (visitedRefs @ [ref])"
  from assms have "ref \<in> ?old" by (simp add: ref_in_refs_of)
  moreover have "ref \<notin> ?new" by simp
  moreover have "?new \<subseteq> ?old" using assms(4) by auto
  ultimately have "?new \<subset> ?old" by blast
  then show ?thesis by (intro psubset_card_mono) auto
qed

lemma ref_step_pos:
  assumes "has_key schema ''$ref''" and "get_prop schema ''$ref'' = JStr ref"
    and "ref \<notin> set visitedRefs"
  shows "0 < card ((set (refs_of spec) \<union> set (refs_of schema)) - set visitedRefs)"
proof -
  from assms have "ref \<in> (set (refs_of spec) \<union> set (refs_of schema)) - set visitedRefs"
    by (simp add: ref_in_refs_of)
  then show ?thesis by (auto simp: card_gt_0_iff)
qed

lemma child_card:
  assumes "set (refs_of child) \<subseteq> set (refs_of schema)"
  shows "card ((set (refs_of spec) \<union> set (refs_of child)) - set visitedRefs)
         \<le> card ((set (refs_of spec) \<union> set (refs_of schema)) - set visitedRefs)"
  using assms by (intro card_mono) auto

lemma frames_bound:
  "frames (SchemaView env spec schema visitedRefs)
     \<le> card ((set (refs_of spec) \<union> set (refs_of schema)) - set visitedRefs)"
proof (induction env spec schema visitedRefs rule: SchemaView.induct)
  case (1 env spec schema visitedRefs)
  let ?b = "card ((set (refs_of spec) \<union> set (refs_of schema)) - set visitedRefs)"
  show ?case
  proof (cases "isObject schema")
    case False
    then show ?thesis by (simp add: SchemaView.simps [of env spec schema])
  next
    case obj: True
    show ?thesis
    proof (cases "has_key schema ''$ref''")
      case hk: True
      show ?thesis
      proof (cases "\<exists>ref. get_prop schema ''$ref'' = JStr ref \<and> ref \<notin> set visitedRefs")
        case True
        then obtain ref where r: "get_prop schema ''$ref'' = JStr ref" "ref \<notin> set visitedRefs"
          by blast
        from hk r have pos: "0 < ?b" by (rule ref_step_pos)
        show ?thesis
        proof (cases "resolveRef env spec ref")
          case (Data resolved)
          show ?thesis
          proof (cases "truthy resolved")
            case tr: True
            have "frames (SchemaView env spec resolved (visitedRefs @ [ref]))
                    \<le> card ((set (refs_of spec) \<union> set (refs_of resolved))
                              - set (visitedRefs @ [ref]))"
              using "1.IH"(1) [OF _ hk r(1) r(2) Data] obj tr by simp
            also have "\<dots> < ?b"
              using hk r refs_of_resolveRef [OF Data] by (rule ref_step_card)
            finally show ?thesis using obj hk r Data tr
              by (simp add: SchemaView.simps [of env spec schema])
          next
            case False
            then show ?thesis using obj hk r Data
              by (simp add: SchemaView.simps [of env spec schema])
          qed
        next
          case (NativeFunction n)
          then show ?thesis using obj hk r pos
            by (simp add: SchemaView.simps [of env spec schema])
        next
          case (NativeObject n)
          then show ?thesis using obj hk r pos
            by (simp add: SchemaView.simps [of env spec schema])
        next
          case Throws
          then show ?thesis using obj hk r
            by (simp add: SchemaView.simps [of env spec schema])
        qed
      next
        case False
        then show ?thesis using obj hk
          by (cases "get_prop schema ''$ref''")
             (auto simp: SchemaView.simps [of env spec schema])
      qed
    next
      case nk: False
      define type where "type = (case get_prop schema ''type'' of JUndef \<Rightarrow> JStr ''object'' | t \<Rightarrow> t)"
      define properties where "properties = get_prop schema ''properties''"
      define items where "items = get_prop schema ''items''"
      define required where "required = get_prop schema ''required''"
      note defs = type_def properties_def items_def required_def
      have sub_p: "set (refs_of properties) \<subseteq> set (refs_of schema)"
        and sub_i: "set (refs_of items) \<subseteq> set (refs_of schema)"
        by (simp_all add: defs refs_of_get_prop)
      show ?thesis
      proof (cases "type = JStr ''object''")
        case ty: True
        show ?thesis
        proof (cases "truthy properties")
          case False
          then show ?thesis using obj nk ty
            by (simp add: SchemaView.simps [of env spec schema] Let_def defs)
        next
          case tp: True
          show ?thesis
          proof (cases "object_entries properties")
            case (Inl e)
            then show ?thesis using obj nk ty tp
              by (simp add: SchemaView.simps [of env spec schema] Let_def defs)
          next
            case (Inr es)
            show ?thesis
            proof (cases "list_ex (\<lambda>e. truthy (snd e)) es \<and> \<not> has_includes required")
              case True
              then show ?thesis using obj nk ty tp Inr
                by (simp add: SchemaView.simps [of env spec schema] Let_def defs)
            next
              case ok: False
              have "(case snd (fst e, if truthy (snd e)
                                      then Some (SchemaView env spec (snd e) visitedRefs)
                                      else None) of
                       None \<Rightarrow> 0 | Some v \<Rightarrow> frames v) \<le> ?b" if e: "e \<in> set es" for e
              proof (cases "truthy (snd e)")
                case False
                then show ?thesis by simp
              next
                case True
                have "frames (SchemaView env spec (snd e) visitedRefs)
                        \<le> card ((set (refs_of spec) \<union> set (refs_of (snd e))) - set visitedRefs)"
                  using "1.IH"(2) [OF _ _ type_def properties_def items_def required_def
                      _ _ Inr _ e True] obj nk ty tp ok by (simp add: defs)
                also have "\<dots> \<le> ?b"
                  using object_entries_child [OF Inr e] sub_p by (intro child_card) auto
                finally show ?thesis using True by simp
              qed
              then have "frames (ObjectSchema
                              (map (\<lambda>e. (fst e,
                                      if truthy (snd e)
                                      then Some (SchemaView env spec (snd e) visitedRefs)
                                      else None)) es)) \<le> ?b"
                by (simp add: foldr_map comp_def foldr_max_le)
              then show ?thesis using obj nk ty tp Inr ok
                by (simp add: SchemaView.simps [of env spec schema] Let_def defs)
            qed
          qed
        qed
      next
        case nty: False
        show ?thesis
        proof (cases "type = JStr ''array'' \<and> truthy items \<and> isObject items
                       \<and> \<not> (has_key items ''$ref'' \<and> \<not> is_string (get_prop items ''$ref''))")
          case True
          have "frames (SchemaView env spec items visitedRefs)
                  \<le> card ((set (refs_of spec) \<union> set (refs_of items)) - set visitedRefs)"
            using "1.IH"(3) [OF _ _ type_def properties_def items_def required_def]
              obj nk nty True by (simp add: defs)
          also have "\<dots> \<le> ?b" using sub_i by (rule child_card)
          finally show ?thesis using obj nk nty True
            by (simp add: SchemaView.simps [of env spec schema] Let_def defs)
        next
          case False
          then show ?thesis using obj nk nty
            by (auto simp: SchemaView.simps [of env spec schema] Let_def defs)
        qed
      qed
    qed
  qed
qed

text \<open>
  Claim C9. On a schema whose \<^verbatim>\<open>$ref\<close> is a string: if the string is among the visited
  references, the call renders the circular-reference message, which is not the message of
  an invalid reference and has no view inside it. If it is not, the call renders the
  invalid-reference message when the resolver returns nothing (a falsy value), and
  otherwise a frame around the view of the resolved schema, rendered with the visited
  references extended by the string; around a built-in function or object that the
  resolver returns, the frame holds an object schema without properties, and a resolver
  that throws ends the rendering. The recursion ends on every document, schema and list
  of visited references (\<open>SchemaView\<close> is a total function by its termination proof),
  and the frames around each other in its view are at most as many as the reference
  strings of the document and the schema that are not visited.
\<close>

theorem circular_reference_terminal:
  assumes "has_key schema ''$ref''" and "get_prop schema ''$ref'' = JStr ref"
  shows "(ref \<in> set visitedRefs \<longrightarrow>
            SchemaView env spec schema visitedRefs = CircularReference ref)
       \<and> CircularReference ref \<noteq> InvalidReference ref
       \<and> (ref \<notin> set visitedRefs \<and> resolveRef env spec ref = Data r \<and> \<not> truthy r \<longrightarrow>
            SchemaView env spec schema visitedRefs = InvalidReference ref)
       \<and> (ref \<notin> set visitedRefs \<and> resolveRef env spec ref = Data r \<and> truthy r \<longrightarrow>
            SchemaView env spec schema visitedRefs
              = ResolvedReference ref (SchemaView env spec r (visitedRefs @ [ref])))
       \<and> (ref \<notin> set visitedRefs
            \<and> (resolveRef env spec ref = NativeFunction n
                \<or> resolveRef env spec ref = NativeObject n) \<longrightarrow>
            SchemaView env spec schema visitedRefs = ResolvedReference ref (ObjectSchema []))
       \<and> (ref \<notin> set visitedRefs \<and> resolveRef env spec ref = Throws \<longrightarrow>
            SchemaView env spec schema visitedRefs = RenderError)
       \<and> frames (SchemaView env spec schema visitedRefs)
            \<le> card ((set (refs_of spec) \<union> set (refs_of schema)) - set visitedRefs)"
proof -
  from assms(1) have ob: "isObject schema" by (cases schema) auto
  have circular: "ref \<in> set visitedRefs \<longrightarrow>
            SchemaView env spec schema visitedRefs = CircularReference ref"
    using assms ob by (simp add: SchemaView.simps [of env spec schema])
  have invalid: "ref \<notin> set visitedRefs \<and> resolveRef env spec ref = Data r \<and> \<not> truthy r \<longrightarrow>
            SchemaView env spec schema visitedRefs = InvalidReference ref"
    using assms ob by (simp add: SchemaView.simps [of env spec schema])
  have resolved: "ref \<notin> set visitedRefs \<and> resolveRef env spec ref = Data r \<and> truthy r \<longrightarrow>
            SchemaView env spec schema visitedRefs
              = ResolvedReference ref (SchemaView env spec r (visitedRefs @ [ref]))"
    using assms ob by (simp add: SchemaView.simps [of env spec schema])
  have native: "ref \<notin> set visitedRefs
            \<and> (resolveRef env spec ref = NativeFunction n
                \<or> resolveRef env spec ref = NativeObject n) \<longrightarrow>
            SchemaView env spec schema visitedRefs = ResolvedReference ref (ObjectSchema [])"
    using assms ob by (auto simp: SchemaView.simps [of env spec schema])
  have throws: "ref \<notin> set visitedRefs \<and> resolveRef env spec ref = Throws \<longrightarrow>
            SchemaView env spec schema visitedRefs = RenderError"
    using assms ob by (simp add: SchemaView.simps [of env spec schema])
  have distinct: "CircularReference ref \<noteq> InvalidReference ref" by simp
  from circular distinct invalid resolved native throws
    frames_bound [of env spec schema visitedRefs]
  show ?thesis by (intro conjI)
qed

lemmas view_defs = resolveRef_get lodash_get_def baseGet_def Let_def
  parse_uint_def reIsUint_def is_digit_def sample_builtins_def

theorem circular_reference_terminal_witness:
  "SchemaView sample_builtins self_ref_spec (JObj [(''$ref'', JStr ''#/A'')]) [''#/A'']
     = CircularReference ''#/A''
   \<and> SchemaView sample_builtins self_ref_spec (JObj [(''$ref'', JStr ''#/C'')]) []
     = InvalidReference ''#/C''
   \<and> SchemaView sample_builtins self_ref_spec (JObj [(''$ref'', JStr ''#/A'')]) []
     = ResolvedReference ''#/A'' (ResolvedReference ''#/B'' (CircularReference ''#/A''))
   \<and> SchemaView sample_builtins self_ref_spec (JObj [(''$ref'', JStr ''#/Node'')]) []
     = ResolvedReference ''#/Node'' (ObjectSchema [(''next'', Some (CircularReference ''#/Node''))])
   \<and> SchemaView sample_builtins self_ref_spec (JObj [(''$ref'', JStr ''#/constructor'')]) []
     = ResolvedReference ''#/constructor'' (ObjectSchema [])
   \<and> frames (SchemaView sample_builtins self_ref_spec (JObj [(''$ref'', JStr ''#/A'')]) []) \<le> 3"
proof -
  have r: "resolveRef sample_builtins self_ref_spec ''#/A'' = Data (JObj [(''$ref'', JStr ''#/B'')])"
    "resolveRef sample_builtins self_ref_spec ''#/B'' = Data (JObj [(''$ref'', JStr ''#/A'')])"
    "resolveRef sample_builtins self_ref_spec ''#/C'' = Data JNull"
    "resolveRef sample_builtins self_ref_spec ''#/Node''
       = Data (JObj [(''type'', JStr ''object''),
               (''properties'', JObj [(''next'', JObj [(''$ref'', JStr ''#/Node'')])])])"
    "resolveRef sample_builtins self_ref_spec ''#/constructor'' = NativeFunction 0"
    by (simp_all add: self_ref_spec_def view_defs)
  have c: "card ((set (refs_of self_ref_spec) \<union> set (refs_of (JObj [(''$ref'', JStr ''#/A'')]))) - set [])
             = 3"
    by (simp add: self_ref_spec_def card_insert_if)
  have n: "SchemaView sample_builtins self_ref_spec
             (JObj [(''type'', JStr ''object''),
                    (''properties'', JObj [(''next'', JObj [(''$ref'', JStr ''#/Node'')])])])
             [''#/Node'']
           = ObjectSchema [(''next'', Some (SchemaView sample_builtins self_ref_spec
                                            (JObj [(''$ref'', JStr ''#/Node'')]) [''#/Node'']))]"
    by (subst SchemaView.simps) (simp add: Let_def)
  note t = circular_reference_terminal [where env = sample_builtins and spec = self_ref_spec]
  note a = t [where ref = "''#/A''" and schema = "JObj [(''$ref'', JStr ''#/A'')]"
      and r = "JObj [(''$ref'', JStr ''#/B'')]"]
  note b = t [where ref = "''#/B''" and schema = "JObj [(''$ref'', JStr ''#/B'')]"
      and visitedRefs = "[''#/A'']" and r = "JObj [(''$ref'', JStr ''#/A'')]"]
  note cc = t [where ref = "''#/C''" and schema = "JObj [(''$ref'', JStr ''#/C'')]"
      and visitedRefs = "[]" and r = JNull]
  note nn = t [where ref = "''#/Node''" and schema = "JObj [(''$ref'', JStr ''#/Node'')]"
      and r = "JObj [(''type'', JStr ''object''),
               (''properties'', JObj [(''next'', JObj [(''$ref'', JStr ''#/Node'')])])]"]
  note k = t [where ref = "''#/constructor''"
      and schema = "JObj [(''$ref'', JStr ''#/constructor'')]" and visitedRefs = "[]" and n = 0]
  show ?thesis
    using a [of "[''#/A'']"] a [of "[''#/A'', ''#/B'']"] a [of "[]"] b cc
      nn [of "[]"] nn [of "[''#/Node'']"] k r c n
    by simp
qed

section \<open>The mutation engine: claim C4\<close>

text \<open>\<^verbatim>\<open>indexOf\<close> finds the first occurrence, and the \<^verbatim>\<open>splice\<close> at it removes that
  occurrence.\<close>

lemma index_from_absent: "(index_from r x i = - 1) = (x \<notin> set r)"
  by (induction r arbitrary: i) auto

lemma index_from_lower: "x \<in> set r \<Longrightarrow> int i \<le> index_from r x i"
proof (induction r arbitrary: i)
  case Nil
  then show ?case by simp
next
  case (Cons y ys)
  show ?case
  proof (cases "y = x")
    case True
    then show ?thesis by simp
  next
    case False
    with Cons.prems have "x \<in> set ys" by simp
    from Cons.IH [OF this, of "Suc i"] False show ?thesis by simp
  qed
qed

lemma index_from_remove1:
  "x \<in> set r \<Longrightarrow>
     take (nat (index_from r x i) - i) r @ drop (Suc (nat (index_from r x i) - i)) r = remove1 x r"
proof (induction r arbitrary: i)
  case Nil
  then show ?case by simp
next
  case (Cons y ys)
  show ?case
  proof (cases "y = x")
    case True
    then show ?thesis by simp
  next
    case False
    with Cons.prems have mem: "x \<in> set ys" by simp
    from index_from_lower [OF mem, of "Suc i"]
    have "nat (index_from ys x (Suc i)) - i = Suc (nat (index_from ys x (Suc i)) - Suc i)"
      by linarith
    with Cons.IH [OF mem, of "Suc i"] False show ?thesis by simp
  qed
qed

lemma splice_found:
  "x \<in> set r \<Longrightarrow>
     take (nat (index_from r x 0)) r @ drop (Suc (nat (index_from r x 0))) r = remove1 x r"
  using index_from_remove1 [of x r 0] by simp

lemma count_list_pos: "(0 < count_list r x) = (x \<in> set r)"
  by (induction r) auto

lemma count_list_remove1: "x \<in> set r \<Longrightarrow> Suc (count_list (remove1 x r) x) = count_list r x"
  by (induction r) (auto simp: count_list_pos [symmetric])

lemma remove1_last_occurrence:
  "count_list r x \<le> 1 \<Longrightarrow> x \<notin> set (remove1 x r)"
proof (cases "x \<in> set r")
  case True
  assume "count_list r x \<le> 1"
  with count_list_remove1 [OF True] have "count_list (remove1 x r) x = 0" by simp
  then show ?thesis using count_list_pos [of "remove1 x r" x] by simp
next
  case False
  then show ?thesis by (simp add: remove1_idem)
qed

lemma str_index_from_lower: "- 1 \<le> str_index_from s k i"
  by (induction s arbitrary: i) auto

text \<open>The handler on a schema node, by the shape of its \<open>required\<close>.\<close>

lemma toggle_required_missing:
  assumes "\<not> truthy (get_prop (JObj kvs) ''required'')"
  shows "toggle_required kvs k b
           = Inr (if b then replace_val ''required'' (JArr [JStr k])
                              (put_entry kvs ''required'' (JArr []))
                  else delete_entry kvs ''required'')"
  using assms
  by (simp add: toggle_required_def map_of_put_entry delete_entry_put_entry Let_def)

lemma toggle_required_array:
  assumes "map_of kvs ''required'' = Some (JArr r)"
  shows "toggle_required kvs k b
           = Inr (let r1 = (if b then (if JStr k \<in> set r then r else r @ [JStr k])
                            else remove1 (JStr k) r)
                  in if r1 = [] then delete_entry kvs ''required''
                     else replace_val ''required'' (JArr r1) kvs)"
proof (cases "JStr k \<in> set r")
  case True
  then have "index_from r (JStr k) 0 \<noteq> - 1" "index_from r (JStr k) 0 > - 1"
    using index_from_absent [of r "JStr k" 0] index_from_lower [of "JStr k" r 0] by auto
  with True assms show ?thesis
    by (auto simp: toggle_required_def Let_def splice_found)
next
  case False
  then have "index_from r (JStr k) 0 = - 1" by (simp add: index_from_absent)
  with False assms show ?thesis
    by (simp add: toggle_required_def Let_def remove1_idem)
qed

lemma toggle_required_string:
  assumes "map_of kvs ''required'' = Some (JStr s)" and "s \<noteq> []"
  shows "toggle_required kvs k b
           = (if b = (str_index_from s k 0 = - 1) then Inl TypeError else Inr kvs)"
  using assms str_index_from_lower [of s k 0]
  by (auto simp: toggle_required_def Let_def)

lemma toggle_required_ok:
  assumes "toggle_required kvs k b = Inr kvs'"
  shows "\<not> truthy (get_prop (JObj kvs) ''required'')
         \<or> (\<exists>r. map_of kvs ''required'' = Some (JArr r))
         \<or> (\<exists>s. map_of kvs ''required'' = Some (JStr s) \<and> s \<noteq> [])"
proof (cases "truthy (get_prop (JObj kvs) ''required'')")
  case False
  then show ?thesis by simp
next
  case True
  with assms show ?thesis
    by (cases "get_prop (JObj kvs) ''required''")
       (auto simp: toggle_required_def split: option.splits)
qed

lemma toggle_required_idem:
  assumes ok: "toggle_required kvs k b = Inr kvs'"
    and once: "b \<or> count_list (case get_prop (JObj kvs) ''required'' of JArr r \<Rightarrow> r | _ \<Rightarrow> [])
                       (JStr k) \<le> 1"
  shows "toggle_required kvs' k b = Inr kvs'"
proof -
  have "map_of (delete_entry kvs ''required'') ''required'' = None"
    by (simp add: map_of_delete_entry)
  then have gone: "toggle_required (delete_entry kvs ''required'') k False
                = Inr (delete_entry kvs ''required'')"
    by (simp add: toggle_required_missing delete_entry_absent)
  from toggle_required_ok [OF ok] consider
      (missing) "\<not> truthy (get_prop (JObj kvs) ''required'')"
    | (array) r where "map_of kvs ''required'' = Some (JArr r)"
    | (string) s where "map_of kvs ''required'' = Some (JStr s)" "s \<noteq> []"
    by blast
  then show ?thesis
  proof cases
    case missing
    show ?thesis
    proof (cases b)
      case True
      let ?kvs1 = "put_entry kvs ''required'' (JArr [])"
      from True missing ok
      have k': "kvs' = replace_val ''required'' (JArr [JStr k]) ?kvs1"
        by (simp add: toggle_required_missing)
      have "map_of ?kvs1 ''required'' \<noteq> None" by (simp add: map_of_put_entry)
      then have m: "map_of kvs' ''required'' = Some (JArr [JStr k])"
        unfolding k' by (simp add: map_of_replace_val)
      show ?thesis using True
        by (simp add: toggle_required_array [OF m] replace_val_same [OF m])
    next
      case False
      with missing ok have "kvs' = delete_entry kvs ''required''"
        by (simp add: toggle_required_missing)
      with False gone show ?thesis by simp
    qed
  next
    case (array r)
    define r1 where "r1 = (if b then (if JStr k \<in> set r then r else r @ [JStr k])
                            else remove1 (JStr k) r)"
    from ok have "Inr kvs' = (Inr (if r1 = [] then delete_entry kvs ''required''
                              else replace_val ''required'' (JArr r1) kvs) :: failure + _)"
      unfolding toggle_required_array [OF array] r1_def Let_def by (rule sym)
    then have k': "kvs' = (if r1 = [] then delete_entry kvs ''required''
                              else replace_val ''required'' (JArr r1) kvs)"
      by (simp only: sum.inject)
    show ?thesis
    proof (cases "r1 = []")
      case True
      then have "\<not> b" by (auto simp: r1_def split: if_splits)
      with True k' gone show ?thesis by simp
    next
      case False
      from array have "map_of kvs ''required'' \<noteq> None" by simp
      then have m: "map_of kvs' ''required'' = Some (JArr r1)"
        using False k' by (simp add: map_of_replace_val)
      have stable: "(if b then (if JStr k \<in> set r1 then r1 else r1 @ [JStr k])
                  else remove1 (JStr k) r1) = r1"
      proof (cases b)
        case True
        then show ?thesis by (auto simp: r1_def)
      next
        case nb: False
        with once array have "count_list r (JStr k) \<le> 1" by simp
        then have "JStr k \<notin> set r1"
          using nb by (simp add: r1_def remove1_last_occurrence)
        with nb show ?thesis by (simp add: remove1_idem)
      qed
      show ?thesis
        using False by (simp add: toggle_required_array [OF m] stable replace_val_same [OF m])
    qed
  next
    case (string s)
    from ok have "kvs' = kvs"
      by (simp add: toggle_required_string [OF string] split: if_splits)
    with ok show ?thesis by simp
  qed
qed

lemma toggle_required_never_empty:
  assumes "toggle_required kvs k b = Inr kvs'"
  shows "map_of kvs' ''required'' \<noteq> Some (JArr [])"
    and "map_of kvs ''required'' = Some (JArr r) \<Longrightarrow> \<not> b \<Longrightarrow> remove1 (JStr k) r = []
           \<Longrightarrow> map_of kvs' ''required'' = None"
proof -
  from toggle_required_ok [OF assms] consider
      (missing) "\<not> truthy (get_prop (JObj kvs) ''required'')"
    | (array) r where "map_of kvs ''required'' = Some (JArr r)"
    | (string) s where "map_of kvs ''required'' = Some (JStr s)" "s \<noteq> []"
    by blast
  then show "map_of kvs' ''required'' \<noteq> Some (JArr [])"
  proof cases
    case missing
    have "map_of (put_entry kvs ''required'' (JArr [])) ''required'' \<noteq> None"
      by (simp add: map_of_put_entry)
    with missing assms show ?thesis
      by (auto simp: toggle_required_missing map_of_replace_val map_of_delete_entry
          split: if_splits)
  next
    case (array r')
    then have "map_of kvs ''required'' \<noteq> None" by simp
    with assms show ?thesis
      by (auto simp: toggle_required_array [OF array] Let_def map_of_replace_val
          map_of_delete_entry split: if_splits)
  next
    case (string s)
    with assms show ?thesis
      by (auto simp: toggle_required_string [OF string] split: if_splits)
  qed
  show "map_of kvs' ''required'' = None"
    if m: "map_of kvs ''required'' = Some (JArr r)" and "\<not> b" and "remove1 (JStr k) r = []"
  proof -
    from assms that have "kvs' = delete_entry kvs ''required''"
      by (simp add: toggle_required_array [OF m])
    then show ?thesis by (simp add: map_of_delete_entry)
  qed
qed

text \<open>
  Claim C4 says that \<open>ToggleRequired\<close> is idempotent for every document and both values
  of the flag. The handler removes the first occurrence of the key only: on a
  Required-set that names \<^verbatim>\<open>id\<close> twice, toggling \<^verbatim>\<open>id\<close> off once leaves one
  \<^verbatim>\<open>id\<close>, and toggling it off again leaves no Required-set.
\<close>

theorem toggle_off_twice_differs:
  "handleToggleRequired sample_builtins dup_doc [Key ''Pet''] ''id'' False
     = Inr (JObj [(''Pet'', JObj [(''required'', JArr [JStr ''id''])])])
   \<and> handleToggleRequired sample_builtins
         (JObj [(''Pet'', JObj [(''required'', JArr [JStr ''id''])])])
         [Key ''Pet''] ''id'' False
     = Inr (JObj [(''Pet'', JObj [])])
   \<and> required_set sample_builtins
         (JObj [(''Pet'', JObj [(''required'', JArr [JStr ''id''])])]) [Key ''Pet'']
     = [JStr ''id'']
   \<and> required_set sample_builtins (JObj [(''Pet'', JObj [])]) [Key ''Pet''] = []"
  by (simp add: dup_doc_def handleToggleRequired_def toggle_required_def required_set_def
      eval_defs)

text \<open>
  Claim C4, amended. Let \<open>ToggleRequired\<close> return on a document, a schema path, a key
  and a flag (it throws on a \<open>required\<close> that is truthy and neither a sequence nor a
  string), and let the flag be true or the Required-set at the path name the key at most
  once, as the data model requires of a Required-set. Then applying it again to the
  result returns the same document, so the same Required-set. And when \<open>get\<close> finds a
  mapping at the schema path, it finds a mapping there afterwards whose \<open>required\<close> is
  never the empty sequence; when the flag is false and the Required-set without the key
  is empty, the mapping has no key \<open>required\<close> afterwards.
\<close>

theorem toggle_required_idempotent:
  assumes ok: "handleToggleRequired env d p k b = Inr d1"
    and once: "b \<or> count_list (required_set env d p) (JStr k) \<le> 1"
  shows "handleToggleRequired env d1 p k b = Inr d1
       \<and> (lodash_get env d p (Data JUndef) = Data (JObj kvs) \<longrightarrow>
            (\<exists>kvs'. lodash_get env d1 p (Data JUndef) = Data (JObj kvs')
               \<and> map_of kvs' ''required'' \<noteq> Some (JArr [])
               \<and> (\<not> b \<and> map_of kvs ''required'' = Some (JArr r) \<and> remove1 (JStr k) r = []
                    \<longrightarrow> map_of kvs' ''required'' = None)))"
proof (cases "truthy d")
  case False
  with ok have "d1 = JNull" by (simp add: handleToggleRequired_def)
  moreover have "lodash_get env d p (Data JUndef) \<noteq> Data (JObj kvs)"
  proof
    assume "lodash_get env d p (Data JUndef) = Data (JObj kvs)"
    from lodash_get_object [OF this] have "isObject d" by (auto dest: spec_node_at_object)
    with False show False by (cases d) auto
  qed
  ultimately show ?thesis by (simp add: handleToggleRequired_def)
next
  case td: True
  show ?thesis
  proof (cases "lodash_get env d p (Data JUndef)")
    case (Data schema)
    show ?thesis
    proof (cases schema)
      case (JObj kvs0)
      with Data have g: "lodash_get env d p (Data JUndef) = Data (JObj kvs0)" by simp
      from lodash_get_object [OF g] have ne: "p \<noteq> []"
        and na: "spec_node_at d (map toKey p) = Some (JObj kvs0)" by simp_all
      from ok td g obtain kvs' where
        n: "toggle_required kvs0 k b = Inr kvs'" and d1: "d1 = write_at d p (JObj kvs')"
        by (auto simp: handleToggleRequired_def cloneDeep_def split: sum.splits)
      have "b \<or> count_list (case get_prop (JObj kvs0) ''required'' of
                                          JArr r \<Rightarrow> r | _ \<Rightarrow> []) (JStr k) \<le> 1"
      proof (cases "get_prop (JObj kvs0) ''required''")
        case (JArr r0)
        then have "spec_node_at (JObj kvs0) [''required''] = Some (JArr r0)"
          by (auto split: option.splits)
        with na have "spec_node_at d (map toKey (p @ [Key ''required''])) = Some (JArr r0)"
          by (simp add: spec_node_at_child)
        then have "lodash_get env d (p @ [Key ''required'']) (Data JUndef) = Data (JArr r0)"
          using lodash_get_node [of "p @ [Key ''required'']" d "JArr r0" env "Data JUndef"]
          by simp
        with once JArr show ?thesis by (simp add: required_set_def)
      qed simp_all
      with n have again: "toggle_required kvs' k b = Inr kvs'" by (rule toggle_required_idem)
      have g1: "lodash_get env d1 p (Data JUndef) = Data (JObj kvs')"
        unfolding d1 using ne na by (rule get_write_at) simp
      have "isObject d1" unfolding d1 using na ne by (rule write_at_object)
      then have t1: "truthy d1" by (cases d1) auto
      have "write_at d1 p (JObj kvs') = d1"
        unfolding d1 using na by (rule write_at_write_at)
      with t1 g1 again have idem: "handleToggleRequired env d1 p k b = Inr d1"
        by (simp add: handleToggleRequired_def cloneDeep_def)
      have "lodash_get env d p (Data JUndef) = Data (JObj kvs) \<longrightarrow>
              (\<exists>kvs'. lodash_get env d1 p (Data JUndef) = Data (JObj kvs')
                 \<and> map_of kvs' ''required'' \<noteq> Some (JArr [])
                 \<and> (\<not> b \<and> map_of kvs ''required'' = Some (JArr r) \<and> remove1 (JStr k) r = []
                      \<longrightarrow> map_of kvs' ''required'' = None))"
        using g g1 toggle_required_never_empty [OF n] by auto
      with idem show ?thesis by simp
    next
      case (JArr xs)
      with ok td Data show ?thesis
        by (auto simp: handleToggleRequired_def cloneDeep_def split: if_splits)
    qed (use ok td Data in \<open>simp_all add: handleToggleRequired_def cloneDeep_def\<close>)
  next
    case (NativeObject m)
    with ok td show ?thesis
      by (auto simp: handleToggleRequired_def cloneDeep_def split: if_splits)
  qed (use ok td in \<open>simp_all add: handleToggleRequired_def cloneDeep_def\<close>)
qed

theorem toggle_required_idempotent_witness:
  "handleToggleRequired sample_builtins pet_doc [Key ''Pet''] ''name'' True
     = Inr (JObj [(''Pet'', JObj [(''type'', JStr ''object''),
                                  (''required'', JArr [JStr ''id'', JStr ''name''])])])
   \<and> handleToggleRequired sample_builtins
         (JObj [(''Pet'', JObj [(''type'', JStr ''object''),
                                (''required'', JArr [JStr ''id'', JStr ''name''])])])
         [Key ''Pet''] ''name'' True
     = Inr (JObj [(''Pet'', JObj [(''type'', JStr ''object''),
                                  (''required'', JArr [JStr ''id'', JStr ''name''])])])
   \<and> handleToggleRequired sample_builtins pet_doc [Key ''Pet''] ''id'' False
     = Inr (JObj [(''Pet'', JObj [(''type'', JStr ''object'')])])
   \<and> handleToggleRequired sample_builtins (JObj [(''Pet'', JObj [(''type'', JStr ''object'')])])
         [Key ''Pet''] ''id'' False
     = Inr (JObj [(''Pet'', JObj [(''type'', JStr ''object'')])])
   \<and> count_list (required_set sample_builtins pet_doc [Key ''Pet'']) (JStr ''id'') \<le> 1
   \<and> lodash_get sample_builtins (JObj [(''Pet'', JObj [(''type'', JStr ''object'')])])
         [Key ''Pet'', Key ''required''] (Data JUndef) = Data JUndef"
proof -
  have on: "handleToggleRequired sample_builtins pet_doc [Key ''Pet''] ''name'' True
     = Inr (JObj [(''Pet'', JObj [(''type'', JStr ''object''),
                                  (''required'', JArr [JStr ''id'', JStr ''name''])])])"
    and off: "handleToggleRequired sample_builtins pet_doc [Key ''Pet''] ''id'' False
     = Inr (JObj [(''Pet'', JObj [(''type'', JStr ''object'')])])"
    and cnt: "count_list (required_set sample_builtins pet_doc [Key ''Pet'']) (JStr ''id'') \<le> 1"
    and gone: "lodash_get sample_builtins (JObj [(''Pet'', JObj [(''type'', JStr ''object'')])])
         [Key ''Pet'', Key ''required''] (Data JUndef) = Data JUndef"
    by (simp_all add: pet_doc_def handleToggleRequired_def toggle_required_def required_set_def
        eval_defs)
  from toggle_required_idempotent [OF on] toggle_required_idempotent [OF off] cnt
  have "handleToggleRequired sample_builtins
         (JObj [(''Pet'', JObj [(''type'', JStr ''object''),
                                (''required'', JArr [JStr ''id'', JStr ''name''])])])
         [Key ''Pet''] ''name'' True
     = Inr (JObj [(''Pet'', JObj [(''type'', JStr ''object''),
                                  (''required'', JArr [JStr ''id'', JStr ''name''])])])"
    and "handleToggleRequired sample_builtins
         (JObj [(''Pet'', JObj [(''type'', JStr ''object'')])])
         [Key ''Pet''] ''id'' False
     = Inr (JObj [(''Pet'', JObj [(''type'', JStr ''object'')])])"
    by simp_all
  with on off cnt gone show ?thesis by (intro conjI)
qed

end
